theory Spec2Isabelle
  imports Complex_Main "HOL-Library.Product_Lexorder"
begin

section \<open>The cyber attack environment: data model\<close>

text \<open>
  A shallow embedding of \<^verbatim>\<open>cyber_attack_spaces.py\<close> and
  \<^verbatim>\<open>cyber_attack_env.py\<close>. Python exceptions are values of the type
  \<open>error\<close>; a function that can raise returns \<open>error + 'a\<close>, with \<open>Inl\<close> the
  exception.
\<close>

datatype error = AssertionError | KeyError | IndexError | ValueError | TypeError

text \<open>An address is the tuple \<^verbatim>\<open>(subnet, id)\<close> of Python integers.\<close>

type_synonym address = "int \<times> int"

text \<open>Service states, action type, machine values and action costs (module constants).\<close>

definition UNKNOWN :: int where "UNKNOWN = 0"
definition PRESENT :: int where "PRESENT = 1"
definition ABSENT :: int where "ABSENT = 2"

definition SCAN :: int where "SCAN = 0"

definition R_SENSITIVE :: real where "R_SENSITIVE = 9000"
definition R_USER :: real where "R_USER = 5000"

definition COST_EXPLOIT :: real where "COST_EXPLOIT = 10"
definition COST_SCAN :: real where "COST_SCAN = 10"

text \<open>
  Reading or writing a numpy array at a Python integer: a negative index counts from
  the end, and an index outside the array raises \<^verbatim>\<open>IndexError\<close>.
\<close>

definition np_index :: "'a list \<Rightarrow> int \<Rightarrow> error + nat" where
  "np_index xs i =
     (if 0 \<le> i \<and> i < int (length xs) then Inr (nat i)
      else if i < 0 \<and> - int (length xs) \<le> i then Inr (nat (int (length xs) + i))
      else Inl IndexError)"

subsection \<open>AddressSpace\<close>

text \<open>
  One round of the loop of \<^verbatim>\<open>generate_address_space\<close>, on the loop state
  \<^verbatim>\<open>(addresses, s_id, u_id)\<close>.
\<close>

definition address_step :: "int \<Rightarrow> address list \<times> int \<times> int \<Rightarrow> address list \<times> int \<times> int" where
  "address_step m st =
     (case st of (addresses, s_id, u_id) \<Rightarrow>
        if m = 0 then (addresses @ [(0, 0)], s_id, u_id)
        else if m mod 10 = 1 then (addresses @ [(1, s_id)], s_id + 1, u_id)
        else (addresses @ [(2, u_id)], s_id, u_id + 1))"

text \<open>
  \<^verbatim>\<open>range(nM)\<close> is the list \<open>[0..nM - 1]\<close>; \<^verbatim>\<open>addresses.sort()\<close> sorts the
  tuples lexicographically, which is the order of \<open>int \<times> int\<close> here.
\<close>

definition generate_address_space :: "int \<Rightarrow> error + address list" where
  "generate_address_space nM =
     (if 2 < nM
      then (case fold address_step [0..nM - 1] ([], 0, 0) of
              (addresses, s_id, u_id) \<Rightarrow> Inr (sort addresses))
      else Inl AssertionError)"

record AddressSpace =
  addr_nM :: int
  space :: "address list"

definition new_AddressSpace :: "int \<Rightarrow> error + AddressSpace" where
  "new_AddressSpace nM =
     (case generate_address_space nM of
        Inl x \<Rightarrow> Inl x
      | Inr addresses \<Rightarrow> Inr \<lparr>addr_nM = nM, space = addresses\<rparr>)"

text \<open>
  The argument of \<^verbatim>\<open>contains\<close> is any Python value. The model has integers,
  strings, \<^verbatim>\<open>None\<close>, tuples and lists; of these only integers can be ordered
  against the integers of an address, every other comparison with \<^verbatim>\<open><\<close> raises
  \<^verbatim>\<open>TypeError\<close>.
\<close>

datatype pyval = PInt int | PStr string | PNone | PTuple "pyval list" | PList "pyval list"

fun int_lt :: "int \<Rightarrow> pyval \<Rightarrow> error + bool" where
  "int_lt n (PInt k) = Inr (n < k)"
| "int_lt n v = Inl TypeError"

text \<open>
  \<^verbatim>\<open>a < x\<close> for an address \<^verbatim>\<open>a\<close> and a tuple \<^verbatim>\<open>x\<close> of length two: Python
  looks for the first position where the two differ (with \<^verbatim>\<open>==\<close>) and compares
  there; two equal tuples are not less.
\<close>

definition tuple_lt :: "address \<Rightarrow> pyval \<times> pyval \<Rightarrow> error + bool" where
  "tuple_lt a x =
     (if PInt (fst a) \<noteq> fst x then int_lt (fst a) (fst x)
      else if PInt (snd a) \<noteq> snd x then int_lt (snd a) (snd x)
      else Inr False)"

definition tuple_eq :: "address \<Rightarrow> pyval \<times> pyval \<Rightarrow> bool" where
  "tuple_eq a x \<longleftrightarrow> PInt (fst a) = fst x \<and> PInt (snd a) = snd x"

text \<open>
  \<^verbatim>\<open>bisect.bisect_left(a, x)\<close> of the standard library: the loop
  \<^verbatim>\<open>while lo < hi: mid = (lo + hi) // 2; if a[mid] < x: lo = mid + 1 else: hi = mid\<close>
  started at \<^verbatim>\<open>lo = 0, hi = len(a)\<close>.
\<close>

function bisect_loop :: "address list \<Rightarrow> pyval \<times> pyval \<Rightarrow> nat \<Rightarrow> nat \<Rightarrow> error + nat" where
  "bisect_loop a x lo hi =
     (if lo < hi
      then (let mid = (lo + hi) div 2
            in case tuple_lt (a ! mid) x of
                 Inl e \<Rightarrow> Inl e
               | Inr lt \<Rightarrow> if lt then bisect_loop a x (mid + 1) hi else bisect_loop a x lo mid)
      else Inr lo)"
  by pat_completeness auto
termination
  by (relation "measure (\<lambda>(a, x, lo, hi). hi - lo)") auto

declare bisect_loop.simps [simp del]

definition bisect_left :: "address list \<Rightarrow> pyval \<times> pyval \<Rightarrow> error + nat" where
  "bisect_left a x = bisect_loop a x 0 (length a)"

text \<open>
  \<^verbatim>\<open>AddressSpace.contains\<close>: a list is promoted to a tuple; a value that is not a
  tuple of length two gives \<^verbatim>\<open>False\<close> before the search; otherwise the sorted
  sequence is read at the index that \<^verbatim>\<open>bisect_left\<close> returns, which raises
  \<^verbatim>\<open>IndexError\<close> when that index is the length of the sequence.
\<close>

definition contains :: "AddressSpace \<Rightarrow> pyval \<Rightarrow> error + bool" where
  "contains sp x =
     (let x' = (case x of PList vs \<Rightarrow> PTuple vs | _ \<Rightarrow> x)
      in case x' of
           PTuple [v0, v1] \<Rightarrow>
             (case bisect_left (space sp) (v0, v1) of
                Inl e \<Rightarrow> Inl e
              | Inr i \<Rightarrow>
                  if i < length (space sp) then Inr (tuple_eq (space sp ! i) (v0, v1))
                  else Inl IndexError)
         | _ \<Rightarrow> Inr False)"

subsection \<open>The ground-truth network\<close>

text \<open>
  \<^verbatim>\<open>permutations(n)\<close>: every list of \<^verbatim>\<open>n\<close> booleans, each list of
  \<^verbatim>\<open>permutations(n - 1)\<close> extended at the front by \<^verbatim>\<open>True\<close> and then by
  \<^verbatim>\<open>False\<close>.
\<close>

function permutations :: "int \<Rightarrow> bool list list" where
  "permutations n =
     (if n \<le> 0 then []
      else if n = 1 then [[True], [False]]
      else concat (map (\<lambda>p. [True # p, False # p]) (permutations (n - 1))))"
  by pat_completeness auto
termination
  by (relation "measure nat") auto

declare permutations.simps [simp del]

text \<open>A machine of the network: \<^verbatim>\<open>{"services": m_cfg, "value": m_value}\<close>.\<close>

record machine =
  m_cfg :: "bool list"
  m_value :: real

type_synonym network = "address \<rightharpoonup> machine"

text \<open>
  numpy's global random generator is not part of the repository. It is a parameter: a
  generator state of type \<open>'g\<close>, \<^verbatim>\<open>np.random.seed(s)\<close> as \<open>rng_seed\<close> giving the
  state after seeding, and \<^verbatim>\<open>np.random.choice(n)\<close> as \<open>rng_choice\<close> giving the
  drawn index and the next state.
\<close>

record 'g np_random =
  rng_seed :: "int \<Rightarrow> 'g"
  rng_choice :: "'g \<Rightarrow> nat \<Rightarrow> nat \<times> 'g"

text \<open>numpy draws an index below \<open>n\<close>.\<close>

definition rng_in_range :: "'g np_random \<Rightarrow> bool" where
  "rng_in_range R \<longleftrightarrow> (\<forall>g n. 0 < n \<longrightarrow> fst (rng_choice R g n) < n)"

text \<open>
  The value of a machine and the sensitive machines after it, from the nested
  \<^verbatim>\<open>if m[1] % 10 == 0: if m[0] == 1: ... elif m[0] == 2: ...\<close>.
\<close>

definition machine_value :: "address \<Rightarrow> address list \<Rightarrow> real \<times> address list" where
  "machine_value m sensitive_machines =
     (if snd m mod 10 = 0
      then (if fst m = 1 then (R_SENSITIVE, sensitive_machines @ [m])
            else if fst m = 2 then (R_USER, sensitive_machines @ [m])
            else (0, sensitive_machines))
      else (0, sensitive_machines))"

text \<open>
  The loop of \<^verbatim>\<open>_construct_network\<close> over the addresses, on the state (generator,
  network, sensitive machines). \<^verbatim>\<open>np.random.choice(0)\<close> raises
  \<^verbatim>\<open>ValueError\<close>; \<^verbatim>\<open>configs[i]\<close> is a checked read.
\<close>

fun construct_loop ::
  "'g np_random \<Rightarrow> bool list list \<Rightarrow> address list \<Rightarrow> 'g \<Rightarrow> network \<Rightarrow> address list
   \<Rightarrow> error + (network \<times> address list \<times> 'g)" where
  "construct_loop R configs [] g net sens = Inr (net, sens, g)"
| "construct_loop R configs (m # ms) g net sens =
     (if length configs = 0 then Inl ValueError
      else (case rng_choice R g (length configs) of
              (i, g') \<Rightarrow>
                if i < length configs
                then (case machine_value m sens of
                        (val, sens') \<Rightarrow>
                          construct_loop R configs ms g'
                            (net(m \<mapsto> \<lparr>m_cfg = configs ! i, m_value = val\<rparr>)) sens')
                else Inl IndexError))"

text \<open>
  \<^verbatim>\<open>_construct_network\<close>: the generator is seeded with 1 whatever its state was,
  the candidate configurations are \<^verbatim>\<open>permutations(nS)[:-1]\<close>.
\<close>

definition construct_network ::
  "'g np_random \<Rightarrow> int \<Rightarrow> int \<Rightarrow> 'g \<Rightarrow> error + (network \<times> address list \<times> 'g)" where
  "construct_network R nM nS g =
     (let g1 = rng_seed R 1;
          configs = butlast (permutations nS)
      in case generate_address_space nM of
           Inl x \<Rightarrow> Inl x
         | Inr addresses \<Rightarrow> construct_loop R configs addresses g1 Map.empty [])"

subsection \<open>The belief state and the heap\<close>

text \<open>
  The observed state of one machine. \<^verbatim>\<open>services\<close> is the array of service states
  (\<open>UNKNOWN\<close>, \<open>PRESENT\<close>, \<open>ABSENT\<close>).
\<close>

record m_state =
  services :: "int list"
  compromised :: bool
  sensitive :: bool
  reachable :: bool

type_synonym belief = "address \<rightharpoonup> m_state"

text \<open>
  Belief states are Python objects: the environment holds a reference to one, mutates
  it in place, and hands references to its callers. The heap maps a reference to the
  belief state it points to; \<open>next_ref\<close> is the first reference not yet allocated.
  A belief state and everything below it is one heap object here: the dictionaries and
  arrays inside one are reached only through it, and \<^verbatim>\<open>copy.deepcopy\<close> copies all
  of them.
\<close>

type_synonym ref = nat

record heap =
  objs :: "ref \<Rightarrow> belief"
  next_ref :: ref

definition alloc :: "belief \<Rightarrow> heap \<Rightarrow> ref \<times> heap" where
  "alloc b h = (next_ref h, \<lparr>objs = (objs h)(next_ref h := b), next_ref = Suc (next_ref h)\<rparr>)"

definition deepcopy :: "ref \<Rightarrow> heap \<Rightarrow> ref \<times> heap" where
  "deepcopy r h = alloc (objs h r) h"

text \<open>A write through a reference, as the environment or any holder of it can do.\<close>

definition mutate :: "ref \<Rightarrow> (belief \<Rightarrow> belief) \<Rightarrow> heap \<Rightarrow> heap" where
  "mutate r f h = h\<lparr>objs := (objs h)(r := f (objs h r))\<rparr>"

subsection \<open>CAActionSpace and CAObservationSpace\<close>

text \<open>
  The action space is the dictionary of an \<^verbatim>\<open>AddressSpace(nM)\<close> and
  \<^verbatim>\<open>Discrete(nS + 1)\<close>, the latter kept as its size.
\<close>

definition CAActionSpace :: "int \<Rightarrow> int \<Rightarrow> error + (AddressSpace \<times> int)" where
  "CAActionSpace nM nS =
     (if nM > 2
      then (if nS > 0
            then (case new_AddressSpace nM of
                    Inl x \<Rightarrow> Inl x
                  | Inr sp \<Rightarrow> Inr (sp, nS + 1))
            else Inl AssertionError)
      else Inl AssertionError)"

record CAObservationSpace =
  obs_nM :: int
  obs_nS :: int
  address_space :: AddressSpace
  initial_observation :: belief

text \<open>The initial record of machine \<open>m\<close>, the body of the loop of \<^verbatim>\<open>gen_initial_state\<close>.\<close>

definition initial_m_state :: "int \<Rightarrow> address \<Rightarrow> m_state" where
  "initial_m_state nS m =
     (if fst m = 0
      then \<lparr>services = replicate (nat nS) UNKNOWN, compromised = False,
            sensitive = False, reachable = True\<rparr>
      else \<lparr>services = replicate (nat nS) UNKNOWN, compromised = False,
            sensitive = (snd m mod 10 = 0), reachable = False\<rparr>)"

definition gen_initial_state :: "AddressSpace \<Rightarrow> int \<Rightarrow> belief" where
  "gen_initial_state sp nS =
     fold (\<lambda>m init_state. init_state(m \<mapsto> initial_m_state nS m)) (space sp) Map.empty"

definition new_CAObservationSpace :: "int \<Rightarrow> int \<Rightarrow> error + CAObservationSpace" where
  "new_CAObservationSpace nM nS =
     (if nM > 2
      then (if nS > 0
            then (case new_AddressSpace nM of
                    Inl x \<Rightarrow> Inl x
                  | Inr sp \<Rightarrow>
                      Inr \<lparr>obs_nM = nM, obs_nS = nS, address_space = sp,
                           initial_observation = gen_initial_state sp nS\<rparr>)
            else Inl AssertionError)
      else Inl AssertionError)"

text \<open>\<^verbatim>\<open>get_initial_state\<close> returns a deep copy of the template: a new object.\<close>

definition get_initial_state :: "CAObservationSpace \<Rightarrow> heap \<Rightarrow> ref \<times> heap" where
  "get_initial_state os h = alloc (initial_observation os) h"

section \<open>CyberAttackEnv\<close>

text \<open>
  The environment object. \<open>current_state\<close> is a reference into the heap; every other
  field is set once by the constructor.
\<close>

record env =
  nM :: int
  nS :: int
  action_space :: "AddressSpace \<times> int"
  observation_space :: CAObservationSpace
  network :: network
  sensitive_machines :: "address list"
  current_state :: ref

text \<open>An action: \<^verbatim>\<open>{"target": address, "action": kind}\<close>.\<close>

record act =
  target :: address
  action :: int

type_synonym info = "string \<rightharpoonup> string"

text \<open>
  \<^verbatim>\<open>reset\<close> binds \<^verbatim>\<open>self.current_state\<close> to a new copy of the template and
  returns \<^verbatim>\<open>self.current_state\<close>.
\<close>

definition reset :: "env \<Rightarrow> heap \<Rightarrow> ref \<times> env \<times> heap" where
  "reset e h =
     (case get_initial_state (observation_space e) h of
        (r, h') \<Rightarrow> (let e' = e\<lparr>current_state := r\<rparr> in (current_state e', e', h')))"

text \<open>
  The constructor. The world it runs in is the state of numpy's global generator and
  the heap. \<open>current_state\<close> has no value before \<^verbatim>\<open>reset\<close> gives it one; the
  record is built with the reference that \<^verbatim>\<open>reset\<close> overwrites.
\<close>

definition CyberAttackEnv ::
  "'g np_random \<Rightarrow> int \<Rightarrow> int \<Rightarrow> 'g \<times> heap \<Rightarrow> error + (env \<times> 'g \<times> heap)" where
  "CyberAttackEnv R nM' nS' w =
     (case CAActionSpace nM' nS' of
        Inl x \<Rightarrow> Inl x
      | Inr asp \<Rightarrow>
          (case new_CAObservationSpace nM' nS' of
             Inl x \<Rightarrow> Inl x
           | Inr osp \<Rightarrow>
               (case construct_network R nM' nS' (fst w) of
                  Inl x \<Rightarrow> Inl x
                | Inr (net, sens, g') \<Rightarrow>
                    (case reset \<lparr>nM = nM', nS = nS', action_space = asp,
                                 observation_space = osp, network = net,
                                 sensitive_machines = sens,
                                 current_state = next_ref (snd w)\<rparr> (snd w) of
                       (r, e, h') \<Rightarrow> Inr (e, g', h')))))"

text \<open>
  \<^verbatim>\<open>_take_action\<close>: success, gained value and identified services. A failed
  exploit returns the empty array.
\<close>

definition take_action :: "env \<Rightarrow> act \<Rightarrow> error + (bool \<times> real \<times> bool list)" where
  "take_action e a =
     (case network e (target a) of
        None \<Rightarrow> Inl KeyError
      | Some mach \<Rightarrow>
          (let target_services = m_cfg mach
           in if action a = SCAN then Inr (True, 0, target_services)
              else (case np_index target_services (action a - 1) of
                      Inl x \<Rightarrow> Inl x
                    | Inr j \<Rightarrow>
                        if target_services ! j
                        then Inr (True, m_value mach, target_services)
                        else Inr (False, 0, []))))"

text \<open>
  The loop \<^verbatim>\<open>for i, s in enumerate(services): target_state[i] = PRESENT if s else ABSENT\<close>,
  from index \<open>i\<close> on; a write past the end of \<^verbatim>\<open>target_state\<close> raises.
\<close>

fun reveal :: "int list \<Rightarrow> nat \<Rightarrow> bool list \<Rightarrow> error + int list" where
  "reveal target_state i [] = Inr target_state"
| "reveal target_state i (s # ss) =
     (if i < length target_state
      then reveal (target_state[i := (if s then PRESENT else ABSENT)]) (Suc i) ss
      else Inl IndexError)"

text \<open>
  \<^verbatim>\<open>_update_reachable\<close>: when the target is on subnet 0, the loop over all items
  of the current state sets \<^verbatim>\<open>reachable\<close> in each.
\<close>

definition update_reachable :: "env \<Rightarrow> address \<Rightarrow> heap \<Rightarrow> heap" where
  "update_reachable e tgt h =
     (if fst tgt = 0
      then mutate (current_state e) (\<lambda>b m. map_option (\<lambda>v. v\<lparr>reachable := True\<rparr>) (b m)) h
      else h)"

text \<open>
  \<^verbatim>\<open>_update_state\<close> mutates the object \<^verbatim>\<open>self.current_state\<close> in place. When it
  raises, the exception reaches the caller of \<^verbatim>\<open>step\<close> and the model keeps no
  heap.
\<close>

definition update_state :: "env \<Rightarrow> act \<Rightarrow> bool \<Rightarrow> bool list \<Rightarrow> heap \<Rightarrow> error + heap" where
  "update_state e a success srv h =
     (let tgt = target a
      in case objs h (current_state e) tgt of
           None \<Rightarrow> Inl KeyError
         | Some ts \<Rightarrow>
             if \<not> success
             then (case np_index (services ts) (action a - 1) of
                     Inl x \<Rightarrow> Inl x
                   | Inr j \<Rightarrow>
                       Inr (mutate (current_state e)
                              (\<lambda>b. b(tgt \<mapsto> ts\<lparr>services := (services ts)[j := ABSENT]\<rparr>)) h))
             else (case reveal (services ts) 0 srv of
                     Inl x \<Rightarrow> Inl x
                   | Inr target_state \<Rightarrow>
                       (let ts1 = ts\<lparr>services := target_state\<rparr>;
                            h1 = mutate (current_state e) (\<lambda>b. b(tgt \<mapsto> ts1)) h
                        in if action a \<noteq> SCAN
                           then Inr (update_reachable e tgt
                                  (mutate (current_state e)
                                     (\<lambda>b. b(tgt \<mapsto> ts1\<lparr>compromised := True\<rparr>)) h1))
                           else Inr h1)))"

text \<open>\<^verbatim>\<open>is_goal\<close>: the loop over the sensitive machines.\<close>

fun goal_loop :: "belief \<Rightarrow> address list \<Rightarrow> error + bool" where
  "goal_loop b [] = Inr True"
| "goal_loop b (m # ms) =
     (case b m of
        None \<Rightarrow> Inl KeyError
      | Some v \<Rightarrow> if \<not> compromised v then Inr False else goal_loop b ms)"

definition is_goal :: "env \<Rightarrow> heap \<Rightarrow> error + bool" where
  "is_goal e h = goal_loop (objs h (current_state e)) (sensitive_machines e)"

text \<open>
  \<^verbatim>\<open>step\<close> returns the observation as a reference: \<^verbatim>\<open>self.current_state\<close>
  itself when the target is not reachable or already compromised, the reference of a
  new deep copy otherwise.
\<close>

definition step :: "env \<Rightarrow> act \<Rightarrow> heap \<Rightarrow> error + ((ref \<times> real \<times> bool \<times> info) \<times> heap)" where
  "step e a h =
     (let tgt = target a;
          action_cost = (if action a = SCAN then COST_SCAN else COST_EXPLOIT)
      in case objs h (current_state e) tgt of
           None \<Rightarrow> Inl KeyError
         | Some ts \<Rightarrow>
             if \<not> reachable ts \<or> compromised ts
             then Inr ((current_state e, 0 - action_cost, False, Map.empty), h)
             else (case take_action e a of
                     Inl x \<Rightarrow> Inl x
                   | Inr (success, val, srv) \<Rightarrow>
                       (case update_state e a success srv h of
                          Inl x \<Rightarrow> Inl x
                        | Inr h1 \<Rightarrow>
                            (case is_goal e h1 of
                               Inl x \<Rightarrow> Inl x
                             | Inr goal \<Rightarrow>
                                 (case deepcopy (current_state e) h1 of
                                    (r, h2) \<Rightarrow>
                                      Inr ((r, val - action_cost, goal, Map.empty), h2))))))"

text \<open>
  A run: the rewards and done flags of \<^verbatim>\<open>step\<close> on a sequence of actions, one
  after the other on the same environment.
\<close>

fun run :: "env \<Rightarrow> act list \<Rightarrow> heap \<Rightarrow> error + ((real \<times> bool) list \<times> heap)" where
  "run e [] h = Inr ([], h)"
| "run e (a # as) h =
     (case step e a h of
        Inl x \<Rightarrow> Inl x
      | Inr ((r, reward, goal, i), h1) \<Rightarrow>
          (case run e as h1 of
             Inl x \<Rightarrow> Inl x
           | Inr (out, h2) \<Rightarrow> Inr ((reward, goal) # out, h2)))"

section \<open>Notions used in the statements\<close>

text \<open>The belief state the environment currently refers to.\<close>

abbreviation cur :: "env \<Rightarrow> heap \<Rightarrow> belief" where
  "cur e h \<equiv> objs h (current_state e)"

text \<open>The two kinds of action on a machine.\<close>

definition scan :: "address \<Rightarrow> act" where
  "scan m = \<lparr>target = m, action = SCAN\<rparr>"

definition exploit :: "address \<Rightarrow> int \<Rightarrow> act" where
  "exploit m k = \<lparr>target = m, action = k\<rparr>"

definition action_cost :: "act \<Rightarrow> real" where
  "action_cost a = (if action a = SCAN then COST_SCAN else COST_EXPLOIT)"

text \<open>
  The invariant of the data model: the reference of the environment is allocated; the
  network, the belief state and the template have the same addresses; the sensitive
  machines are among them; every service sequence has length \<open>nS\<close>.
\<close>

definition wf_env :: "env \<Rightarrow> heap \<Rightarrow> bool" where
  "wf_env e h \<longleftrightarrow>
     current_state e < next_ref h \<and>
     dom (cur e h) = dom (network e) \<and>
     dom (initial_observation (observation_space e)) = dom (network e) \<and>
     set (sensitive_machines e) \<subseteq> dom (network e) \<and>
     (\<forall>m ts. cur e h m = Some ts \<longrightarrow> int (length (services ts)) = nS e) \<and>
     (\<forall>m ts. initial_observation (observation_space e) m = Some ts \<longrightarrow>
        int (length (services ts)) = nS e) \<and>
     (\<forall>m mc. network e m = Some mc \<longrightarrow> int (length (m_cfg mc)) = nS e)"

text \<open>
  What \<^verbatim>\<open>_update_state\<close> does to the belief state it mutates, as a function of
  that belief state (lemma \<open>update_state_eq\<close> below).
\<close>

definition update_belief :: "act \<Rightarrow> bool \<Rightarrow> bool list \<Rightarrow> belief \<Rightarrow> error + belief" where
  "update_belief a success srv b =
     (case b (target a) of
        None \<Rightarrow> Inl KeyError
      | Some ts \<Rightarrow>
          if \<not> success
          then (case np_index (services ts) (action a - 1) of
                  Inl x \<Rightarrow> Inl x
                | Inr j \<Rightarrow> Inr (b(target a \<mapsto> ts\<lparr>services := (services ts)[j := ABSENT]\<rparr>)))
          else (case reveal (services ts) 0 srv of
                  Inl x \<Rightarrow> Inl x
                | Inr st \<Rightarrow>
                    if action a = SCAN then Inr (b(target a \<mapsto> ts\<lparr>services := st\<rparr>))
                    else if fst (target a) = 0
                    then Inr (\<lambda>m. map_option (\<lambda>v. v\<lparr>reachable := True\<rparr>)
                                ((b(target a \<mapsto> ts\<lparr>services := st, compromised := True\<rparr>)) m))
                    else Inr (b(target a \<mapsto> ts\<lparr>services := st, compromised := True\<rparr>))))"

text \<open>
  A generator and a heap for closed examples. With \<open>nS = 1\<close> there is one candidate
  configuration, so every generator that draws in range builds the same network.
\<close>

definition rng0 :: "nat np_random" where
  "rng0 = \<lparr>rng_seed = nat, rng_choice = (\<lambda>g n. (g mod n, Suc g))\<rparr>"

definition heap0 :: heap where
  "heap0 = \<lparr>objs = (\<lambda>r. Map.empty), next_ref = 0\<rparr>"

text \<open>
  The example environments: \<^verbatim>\<open>CyberAttackEnv(4, k)\<close> (the tests have \<open>k = 1\<close>)
  after a run, as the environment, the heap and the outputs of the run.
\<close>

definition demo_after :: "int \<Rightarrow> act list \<Rightarrow> (env \<times> heap \<times> (real \<times> bool) list) option" where
  "demo_after k as =
     (case CyberAttackEnv rng0 4 k (0, heap0) of
        Inl x \<Rightarrow> None
      | Inr (e, g, h) \<Rightarrow>
          (case run e as h of
             Inl x \<Rightarrow> None
           | Inr (out, h1) \<Rightarrow> Some (e, h1, out)))"

text \<open>
  An episode: construct an environment in a world and run a sequence of actions on it;
  the result is the sequence of rewards and done flags.
\<close>

definition episode ::
  "'g np_random \<Rightarrow> int \<Rightarrow> int \<Rightarrow> 'g \<times> heap \<Rightarrow> act list \<Rightarrow> error + (real \<times> bool) list" where
  "episode R nM' nS' w as =
     (case CyberAttackEnv R nM' nS' w of
        Inl x \<Rightarrow> Inl x
      | Inr (e, g, h) \<Rightarrow> map_sum id fst (run e as h))"

text \<open>The ground truth an environment is constructed with.\<close>

definition ground_truth ::
  "'g np_random \<Rightarrow> int \<Rightarrow> int \<Rightarrow> 'g \<times> heap \<Rightarrow> error + (network \<times> address list)" where
  "ground_truth R nM' nS' w =
     (case CyberAttackEnv R nM' nS' w of
        Inl x \<Rightarrow> Inl x
      | Inr (e, g, h) \<Rightarrow> Inr (network e, sensitive_machines e))"

section \<open>Lemmas\<close>

subsection \<open>The candidate configurations\<close>

lemma extend_set:
  "set (concat (map (\<lambda>p. [True # p, False # p]) ps)) = (#) True ` set ps \<union> (#) False ` set ps"
  by (induction ps) auto

lemma extend_distinct:
  "distinct ps \<Longrightarrow> distinct (concat (map (\<lambda>p. [True # p, False # p]) ps))"
  by (induction ps) (auto simp: extend_set)

lemma extend_last:
  "ps \<noteq> [] \<Longrightarrow> last (concat (map (\<lambda>p. [True # p, False # p]) ps)) = False # last ps"
  by (induction ps) auto

lemma extend_length:
  "length (concat (map (\<lambda>p. [True # p, False # p]) ps)) = 2 * length ps"
  by (induction ps) auto

lemma extend_nonempty:
  "ps \<noteq> [] \<Longrightarrow> concat (map (\<lambda>p. [True # p, False # p]) ps) \<noteq> []"
  by (cases ps) auto

lemma bool_lists_Suc:
  "{v :: bool list. length v = Suc k} = (#) True ` {v. length v = k} \<union> (#) False ` {v. length v = k}"
proof (rule set_eqI)
  fix v :: "bool list"
  show "v \<in> {v. length v = Suc k} \<longleftrightarrow> v \<in> (#) True ` {v. length v = k} \<union> (#) False ` {v. length v = k}"
    by (cases v) auto
qed

lemma permutations_unfold:
  "1 < n \<Longrightarrow> permutations n = concat (map (\<lambda>p. [True # p, False # p]) (permutations (n - 1)))"
  by (subst permutations.simps) simp

lemma permutations_1: "permutations 1 = [[True], [False]]"
  by (subst permutations.simps) simp

lemma permutations_props:
  "0 < n \<Longrightarrow>
     set (permutations n) = {v. length v = nat n} \<and> distinct (permutations n) \<and>
     permutations n \<noteq> [] \<and> last (permutations n) = replicate (nat n) False \<and>
     length (permutations n) = 2 ^ nat n"
proof (induction n rule: permutations.induct)
  case (1 n)
  show ?case
  proof (cases "n = 1")
    case True
    have "{v :: bool list. length v = Suc 0} = {[True], [False]}"
      using bool_lists_Suc [of 0] by auto
    then show ?thesis using True by (simp add: permutations_1)
  next
    case False
    with "1.prems" have pos: "0 < n - 1" and n: "\<not> n \<le> 0" "n \<noteq> 1" by auto
    note IH = "1.IH" [OF n pos]
    let ?ps = "permutations (n - 1)"
    have unf: "permutations n = concat (map (\<lambda>p. [True # p, False # p]) ?ps)"
      using pos by (intro permutations_unfold) simp
    have suc: "nat n = Suc (nat (n - 1))" using pos by auto
    have a: "set (permutations n) = {v. length v = nat n}"
      unfolding unf extend_set suc bool_lists_Suc using IH by simp
    have b: "distinct (permutations n)"
      unfolding unf using IH by (intro extend_distinct) simp
    have c: "permutations n \<noteq> []"
      unfolding unf using IH by (intro extend_nonempty) simp
    have "last (concat (map (\<lambda>p. [True # p, False # p]) ?ps)) = False # last ?ps"
      using IH by (intro extend_last) simp
    then have d: "last (permutations n) = replicate (nat n) False"
      unfolding unf suc using IH by (simp only: replicate_Suc)
    have e: "length (permutations n) = 2 ^ nat n"
      unfolding unf suc extend_length using IH by simp
    from a b c d e show ?thesis by blast
  qed
qed

lemma set_butlast_distinct:
  "distinct xs \<Longrightarrow> xs \<noteq> [] \<Longrightarrow> set (butlast xs) = set xs - {last xs}"
proof -
  assume d: "distinct xs" and ne: "xs \<noteq> []"
  then have xs: "xs = butlast xs @ [last xs]" by simp
  have "distinct (butlast xs @ [last xs])" using d xs by simp
  then have "last xs \<notin> set (butlast xs)" by simp
  moreover have "set xs = set (butlast xs) \<union> {last xs}"
    by (subst xs) simp
  ultimately show ?thesis by auto
qed

lemma configs_props:
  assumes "0 < n"
  shows "set (butlast (permutations n)) = {v. length v = nat n} - {replicate (nat n) False}"
    and "distinct (butlast (permutations n))"
    and "length (butlast (permutations n)) = 2 ^ nat n - 1"
  using permutations_props [OF assms]
  by (simp_all add: set_butlast_distinct distinct_butlast)

lemma configs_have_service:
  assumes "0 < n" "v \<in> set (butlast (permutations n))"
  shows "True \<in> set v"
proof -
  from assms have len: "length v = nat n" and ne: "v \<noteq> replicate (nat n) False"
    by (simp_all add: configs_props(1))
  show ?thesis
  proof (rule ccontr)
    assume "True \<notin> set v"
    then have "\<forall>x\<in>set v. x = False" by auto
    then have "v = replicate (length v) False"
      by (simp add: replicate_length_same)
    with len ne show False by simp
  qed
qed

subsection \<open>The update of the belief state\<close>

lemma reveal_length: "reveal ts i ss = Inr ts' \<Longrightarrow> length ts' = length ts"
  by (induction ss arbitrary: ts i) (auto split: if_splits)

lemma reveal_ok:
  "i + length ss \<le> length ts \<Longrightarrow>
   reveal ts i ss = Inr (take i ts @ map (\<lambda>s. if s then PRESENT else ABSENT) ss @ drop (i + length ss) ts)"
proof (induction ss arbitrary: ts i)
  case Nil
  then show ?case by simp
next
  case (Cons s ss)
  let ?v = "if s then PRESENT else ABSENT"
  from Cons.prems have i: "i < length ts" and le: "Suc i + length ss \<le> length (ts[i := ?v])"
    by simp_all
  have "take (Suc i) (ts[i := ?v]) = take i ts @ [?v]"
    using i by (simp add: take_Suc_conv_app_nth)
  moreover have "drop (Suc i + length ss) (ts[i := ?v]) = drop (i + length (s # ss)) ts"
    by simp
  ultimately show ?case
    using i Cons.IH [OF le] by simp
qed

lemma reveal_all:
  "length ss = length ts \<Longrightarrow> reveal ts 0 ss = Inr (map (\<lambda>s. if s then PRESENT else ABSENT) ss)"
  using reveal_ok [of 0 ss ts] by simp

lemma update_state_eq:
  "update_state e a success srv h =
     (case update_belief a success srv (cur e h) of
        Inl x \<Rightarrow> Inl x
      | Inr b \<Rightarrow> Inr (h\<lparr>objs := (objs h)(current_state e := b)\<rparr>))"
  by (auto simp: update_state_def update_belief_def update_reachable_def mutate_def Let_def
      split: option.splits sum.splits)

lemma is_goal_upd [simp]:
  "is_goal e (h\<lparr>objs := (objs h)(current_state e := b)\<rparr>) = goal_loop b (sensitive_machines e)"
  by (simp add: is_goal_def)

lemma step_gate:
  assumes "cur e h (target a) = Some ts" "\<not> reachable ts \<or> compromised ts"
  shows "step e a h = Inr ((current_state e, - action_cost a, False, Map.empty), h)"
  using assms by (auto simp: step_def action_cost_def Let_def)

lemma step_pass:
  assumes "cur e h (target a) = Some ts" "reachable ts" "\<not> compromised ts"
  shows "step e a h =
     (case take_action e a of
        Inl x \<Rightarrow> Inl x
      | Inr (success, val, srv) \<Rightarrow>
          (case update_belief a success srv (cur e h) of
             Inl x \<Rightarrow> Inl x
           | Inr b \<Rightarrow>
               (case goal_loop b (sensitive_machines e) of
                  Inl x \<Rightarrow> Inl x
                | Inr goal \<Rightarrow>
                    Inr ((next_ref h, val - action_cost a, goal, Map.empty),
                         \<lparr>objs = (objs h)(current_state e := b, next_ref h := b),
                          next_ref = Suc (next_ref h)\<rparr>))))"
  using assms
  by (auto simp: step_def action_cost_def Let_def update_state_eq deepcopy_def alloc_def
      split: sum.splits prod.splits)

subsection \<open>Construction\<close>

lemma machine_value_eq:
  "machine_value m sens =
     ((if snd m mod 10 = 0 \<and> fst m = 1 then R_SENSITIVE
       else if snd m mod 10 = 0 \<and> fst m = 2 then R_USER else 0),
      sens @ filter (\<lambda>m. snd m mod 10 = 0 \<and> (fst m = 1 \<or> fst m = 2)) [m])"
  by (simp add: machine_value_def)

lemma construct_loop_result:
  "construct_loop R configs ms g net sens = Inr (net', sens', g') \<Longrightarrow>
     dom net' = dom net \<union> set ms \<and>
     sens' = sens @ filter (\<lambda>m. snd m mod 10 = 0 \<and> (fst m = 1 \<or> fst m = 2)) ms \<and>
     (\<forall>m mach. net' m = Some mach \<longrightarrow>
        net m = Some mach \<or>
        (m \<in> set ms \<and> m_cfg mach \<in> set configs \<and>
         m_value mach = (if snd m mod 10 = 0 \<and> fst m = 1 then R_SENSITIVE
                         else if snd m mod 10 = 0 \<and> fst m = 2 then R_USER else 0)))"
proof (induction ms arbitrary: g net sens)
  case Nil
  then show ?case by simp
next
  case (Cons m ms)
  from Cons.prems have ne: "length configs \<noteq> 0"
    by (auto split: if_splits)
  obtain i g1 where ch: "rng_choice R g (length configs) = (i, g1)"
    by (cases "rng_choice R g (length configs)")
  from Cons.prems ne ch have i: "i < length configs"
    by (auto split: if_splits)
  let ?val = "if snd m mod 10 = 0 \<and> fst m = 1 then R_SENSITIVE
              else if snd m mod 10 = 0 \<and> fst m = 2 then R_USER else 0"
  let ?sens = "sens @ filter (\<lambda>m. snd m mod 10 = 0 \<and> (fst m = 1 \<or> fst m = 2)) [m]"
  let ?net = "net(m \<mapsto> \<lparr>m_cfg = configs ! i, m_value = ?val\<rparr>)"
  from Cons.prems ne ch i
  have rec: "construct_loop R configs ms g1 ?net ?sens = Inr (net', sens', g')"
    by (simp add: machine_value_eq)
  note IH = Cons.IH [OF rec]
  have a: "dom net' = dom net \<union> set (m # ms)" using IH by auto
  have b: "sens' = sens @ filter (\<lambda>m. snd m mod 10 = 0 \<and> (fst m = 1 \<or> fst m = 2)) (m # ms)"
    using IH by simp
  have c: "\<forall>k mach. net' k = Some mach \<longrightarrow>
        net k = Some mach \<or>
        (k \<in> set (m # ms) \<and> m_cfg mach \<in> set configs \<and>
         m_value mach = (if snd k mod 10 = 0 \<and> fst k = 1 then R_SENSITIVE
                         else if snd k mod 10 = 0 \<and> fst k = 2 then R_USER else 0))"
  proof (intro allI impI)
    fix k mach
    assume "net' k = Some mach"
    with IH have "?net k = Some mach \<or>
        (k \<in> set ms \<and> m_cfg mach \<in> set configs \<and>
         m_value mach = (if snd k mod 10 = 0 \<and> fst k = 1 then R_SENSITIVE
                         else if snd k mod 10 = 0 \<and> fst k = 2 then R_USER else 0))"
      by blast
    then show "net k = Some mach \<or>
        (k \<in> set (m # ms) \<and> m_cfg mach \<in> set configs \<and>
         m_value mach = (if snd k mod 10 = 0 \<and> fst k = 1 then R_SENSITIVE
                         else if snd k mod 10 = 0 \<and> fst k = 2 then R_USER else 0))"
      using i by (cases "k = m") auto
  qed
  from a b c show ?case by blast
qed

lemma construct_loop_succeeds:
  assumes "rng_in_range R" "configs \<noteq> []"
  shows "\<exists>res. construct_loop R configs ms g net sens = Inr res"
proof (induction ms arbitrary: g net sens)
  case Nil
  then show ?case by simp
next
  case (Cons m ms)
  obtain i g1 where ch: "rng_choice R g (length configs) = (i, g1)"
    by (cases "rng_choice R g (length configs)")
  from assms have "fst (rng_choice R g (length configs)) < length configs"
    by (simp add: rng_in_range_def)
  with ch have i: "i < length configs" by simp
  show ?case using assms(2) ch i Cons.IH by (simp add: machine_value_eq)
qed

lemma fold_map_upd:
  "fold (\<lambda>m s. s(m \<mapsto> f m)) xs s0 k = (if k \<in> set xs then Some (f k) else s0 k)"
  by (induction xs arbitrary: s0) auto

lemma gen_initial_state_at:
  "gen_initial_state sp n m = (if m \<in> set (space sp) then Some (initial_m_state n m) else None)"
  by (simp add: gen_initial_state_def fold_map_upd)

lemma dom_gen_initial_state: "dom (gen_initial_state sp n) = set (space sp)"
  by (auto simp: gen_initial_state_at split: if_splits)

lemma length_initial_services: "length (services (initial_m_state n m)) = nat n"
  by (simp add: initial_m_state_def)

lemma CyberAttackEnv_Inr:
  assumes "CyberAttackEnv R n k w = Inr (e, g', h')"
  shows "\<exists>addrs.
     2 < n \<and> 0 < k \<and> generate_address_space n = Inr addrs \<and>
     construct_loop R (butlast (permutations k)) addrs (rng_seed R 1) Map.empty []
       = Inr (network e, sensitive_machines e, g') \<and>
     nM e = n \<and> nS e = k \<and>
     action_space e = (\<lparr>addr_nM = n, space = addrs\<rparr>, k + 1) \<and>
     observation_space e =
       \<lparr>obs_nM = n, obs_nS = k, address_space = \<lparr>addr_nM = n, space = addrs\<rparr>,
        initial_observation = gen_initial_state \<lparr>addr_nM = n, space = addrs\<rparr> k\<rparr> \<and>
     current_state e = next_ref (snd w) \<and>
     h' = \<lparr>objs = (objs (snd w))(next_ref (snd w) := gen_initial_state \<lparr>addr_nM = n, space = addrs\<rparr> k),
           next_ref = Suc (next_ref (snd w))\<rparr>"
  using assms
  by (auto simp: CyberAttackEnv_def CAActionSpace_def new_CAObservationSpace_def
      new_AddressSpace_def construct_network_def reset_def get_initial_state_def alloc_def
      Let_def split: sum.splits if_splits prod.splits)

lemma CyberAttackEnv_wf:
  assumes "CyberAttackEnv R n k w = Inr (e, g', h')"
  shows "wf_env e h'"
proof -
  from CyberAttackEnv_Inr [OF assms] obtain addrs where
    n: "2 < n" and k: "0 < k" and
    loop: "construct_loop R (butlast (permutations k)) addrs (rng_seed R 1) Map.empty []
       = Inr (network e, sensitive_machines e, g')" and
    nS: "nS e = k" and
    os: "observation_space e =
       \<lparr>obs_nM = n, obs_nS = k, address_space = \<lparr>addr_nM = n, space = addrs\<rparr>,
        initial_observation = gen_initial_state \<lparr>addr_nM = n, space = addrs\<rparr> k\<rparr>" and
    cs: "current_state e = next_ref (snd w)" and
    h': "h' = \<lparr>objs = (objs (snd w))(next_ref (snd w) := gen_initial_state \<lparr>addr_nM = n, space = addrs\<rparr> k),
           next_ref = Suc (next_ref (snd w))\<rparr>"
    by blast
  note res = construct_loop_result [OF loop]
  let ?b = "gen_initial_state \<lparr>addr_nM = n, space = addrs\<rparr> k"
  have cur: "cur e h' = ?b" by (simp add: cs h')
  have tmpl: "initial_observation (observation_space e) = ?b" by (simp add: os)
  have dn: "dom (network e) = set addrs" using res by simp
  have db: "dom ?b = set addrs" by (simp add: dom_gen_initial_state)
  have sens: "set (sensitive_machines e) \<subseteq> dom (network e)"
    using res dn by auto
  have lb: "\<forall>m ts. ?b m = Some ts \<longrightarrow> int (length (services ts)) = nS e"
    using k by (auto simp: gen_initial_state_at nS length_initial_services split: if_splits)
  have ln: "\<forall>m mc. network e m = Some mc \<longrightarrow> int (length (m_cfg mc)) = nS e"
  proof (intro allI impI)
    fix m mc assume "network e m = Some mc"
    with res have "m_cfg mc \<in> set (butlast (permutations k))" by fastforce
    then have "length (m_cfg mc) = nat k" using configs_props(1) [OF k] by auto
    then show "int (length (m_cfg mc)) = nS e" using k nS by simp
  qed
  show ?thesis
    unfolding wf_env_def cur tmpl
    using dn db sens lb ln by (simp add: cs h')
qed

lemma CyberAttackEnv_succeeds:
  assumes "rng_in_range R" "2 < n" "0 < k"
  shows "\<exists>e g' h'. CyberAttackEnv R n k w = Inr (e, g', h')"
proof -
  from \<open>0 < k\<close> have "length (butlast (permutations k)) = 2 ^ nat k - 1"
    by (rule configs_props(3))
  moreover have "(2::nat) ^ nat k \<ge> 2"
  proof -
    from \<open>0 < k\<close> have "nat k = Suc (nat (k - 1))" by auto
    then show ?thesis by simp
  qed
  ultimately have "0 < length (butlast (permutations k))" by linarith
  then have ne: "butlast (permutations k) \<noteq> []" by blast
  have "\<exists>addrs. generate_address_space n = Inr addrs"
    using \<open>2 < n\<close>
    by (cases "fold address_step [0..n - 1] ([], 0, 0)") (simp add: generate_address_space_def)
  then obtain addrs where ga: "generate_address_space n = Inr addrs" by blast
  from construct_loop_succeeds [OF assms(1) ne]
  obtain res where "construct_loop R (butlast (permutations k)) addrs (rng_seed R 1) Map.empty [] = Inr res"
    by blast
  then show ?thesis
    using assms(2,3) ga
    by (cases res) (auto simp: CyberAttackEnv_def CAActionSpace_def new_CAObservationSpace_def
      new_AddressSpace_def construct_network_def reset_def get_initial_state_def alloc_def
      Let_def split: sum.splits if_splits prod.splits)
qed

subsection \<open>Steps\<close>

lemma np_index_in_range:
  "0 \<le> i \<Longrightarrow> i < int (length xs) \<Longrightarrow> np_index xs i = Inr (nat i)"
  by (simp add: np_index_def)

lemma take_action_scan:
  "network e (target a) = Some mach \<Longrightarrow> action a = SCAN \<Longrightarrow>
   take_action e a = Inr (True, 0, m_cfg mach)"
  by (simp add: take_action_def)

lemma take_action_exploit:
  assumes "network e (target a) = Some mach" "0 < action a" "action a \<le> int (length (m_cfg mach))"
  shows "take_action e a =
     (if m_cfg mach ! nat (action a - 1) then Inr (True, m_value mach, m_cfg mach)
      else Inr (False, 0, []))"
  using assms by (simp add: take_action_def SCAN_def np_index_in_range)

lemma goal_loop_eq:
  "set ms \<subseteq> dom b \<Longrightarrow>
   goal_loop b ms = Inr (\<forall>m\<in>set ms. \<exists>v. b m = Some v \<and> compromised v)"
  by (induction ms) auto

lemma update_belief_dom:
  "update_belief a s srv b = Inr b' \<Longrightarrow> dom b' = dom b"
  by (auto simp: update_belief_def dom_def split: option.splits sum.splits if_splits)

lemma update_belief_length:
  assumes "update_belief a s srv b = Inr b'" "b' m = Some v'"
  shows "\<exists>v. b m = Some v \<and> length (services v') = length (services v)"
proof -
  from assms(1) obtain ts where ts: "b (target a) = Some ts"
    by (auto simp: update_belief_def split: option.splits)
  show ?thesis
  proof (cases s)
    case False
    with assms ts show ?thesis
      by (auto simp: update_belief_def split: sum.splits if_splits)
  next
    case True
    with assms(1) ts obtain st where st: "reveal (services ts) 0 srv = Inr st"
      by (auto simp: update_belief_def split: sum.splits)
    have "length st = length (services ts)" by (rule reveal_length [OF st])
    with assms ts True st show ?thesis
      by (auto simp: update_belief_def split: if_splits)
  qed
qed

lemma update_belief_mono:
  assumes "update_belief a s srv b = Inr b'" "b m = Some v"
  shows "\<exists>v'. b' m = Some v' \<and> (reachable v \<longrightarrow> reachable v') \<and>
           (compromised v \<longrightarrow> compromised v') \<and> sensitive v' = sensitive v"
  using assms
  by (auto simp: update_belief_def split: option.splits sum.splits if_splits)

lemma wf_env_lengths:
  assumes "wf_env e h" "cur e h m = Some ts" "network e m = Some mach"
  shows "length (m_cfg mach) = length (services ts)" "int (length (services ts)) = nS e"
  using assms unfolding wf_env_def by (metis of_nat_eq_iff)+

lemma wf_env_network:
  assumes "wf_env e h" "cur e h m = Some ts"
  shows "\<exists>mach. network e m = Some mach"
  using assms unfolding wf_env_def by (metis domD domI)

lemma wf_env_sens: "wf_env e h \<Longrightarrow> set (sensitive_machines e) \<subseteq> dom (cur e h)"
  unfolding wf_env_def by simp

lemma update_belief_scan:
  assumes "b (target a) = Some ts" "action a = SCAN" "length srv = length (services ts)"
  shows "update_belief a True srv b =
     Inr (b(target a \<mapsto> ts\<lparr>services := map (\<lambda>s. if s then PRESENT else ABSENT) srv\<rparr>))"
  using assms by (simp add: update_belief_def reveal_all)

lemma update_belief_exploit:
  assumes "b (target a) = Some ts" "action a \<noteq> SCAN" "length srv = length (services ts)"
  shows "update_belief a True srv b =
     Inr (if fst (target a) = 0
          then (\<lambda>m. map_option (\<lambda>v. v\<lparr>reachable := True\<rparr>)
                  ((b(target a \<mapsto> ts\<lparr>services := map (\<lambda>s. if s then PRESENT else ABSENT) srv,
                                    compromised := True\<rparr>)) m))
          else b(target a \<mapsto> ts\<lparr>services := map (\<lambda>s. if s then PRESENT else ABSENT) srv,
                                compromised := True\<rparr>))"
  using assms by (simp add: update_belief_def reveal_all)

lemma update_belief_failed:
  assumes "b (target a) = Some ts" "0 < action a" "action a \<le> int (length (services ts))"
  shows "update_belief a False srv b =
     Inr (b(target a \<mapsto> ts\<lparr>services := (services ts)[nat (action a - 1) := ABSENT]\<rparr>))"
  using assms by (simp add: update_belief_def np_index_in_range)

text \<open>The result of a step that passes the gate, in terms of the new belief state.\<close>

lemma step_result:
  assumes ts: "cur e h (target a) = Some ts" "reachable ts" "\<not> compromised ts"
    and ta: "take_action e a = Inr (success, val, srv)"
    and ub: "update_belief a success srv (cur e h) = Inr b"
    and sens: "set (sensitive_machines e) \<subseteq> dom (cur e h)"
  shows "step e a h =
     Inr ((next_ref h, val - action_cost a,
           (\<forall>m\<in>set (sensitive_machines e). \<exists>v. b m = Some v \<and> compromised v), Map.empty),
          \<lparr>objs = (objs h)(current_state e := b, next_ref h := b),
           next_ref = Suc (next_ref h)\<rparr>)"
proof -
  have "dom b = dom (cur e h)" by (rule update_belief_dom [OF ub])
  with sens have "set (sensitive_machines e) \<subseteq> dom b" by simp
  then have "goal_loop b (sensitive_machines e) =
      Inr (\<forall>m\<in>set (sensitive_machines e). \<exists>v. b m = Some v \<and> compromised v)"
    by (rule goal_loop_eq)
  then show ?thesis
    by (simp add: step_pass [OF ts] ta ub)
qed

lemma step_wf:
  assumes wf: "wf_env e h" and st: "step e a h = Inr (res, h')"
  shows "wf_env e h'"
proof (cases "cur e h (target a)")
  case None
  with st show ?thesis by (simp add: step_def Let_def)
next
  case (Some ts)
  show ?thesis
  proof (cases "\<not> reachable ts \<or> compromised ts")
    case True
    from step_gate [OF Some True] st wf show ?thesis by simp
  next
    case False
    then have g: "reachable ts" "\<not> compromised ts" by auto
    from st obtain success val srv b where
      ub: "update_belief a success srv (cur e h) = Inr b" and
      h': "h' = \<lparr>objs = (objs h)(current_state e := b, next_ref h := b),
                 next_ref = Suc (next_ref h)\<rparr>"
      unfolding step_pass [OF Some g]
      by (auto split: sum.splits prod.splits)
    have cur: "cur e h' = b" by (simp add: h')
    have d: "dom b = dom (cur e h)" by (rule update_belief_dom [OF ub])
    have l: "\<forall>m ts. b m = Some ts \<longrightarrow> int (length (services ts)) = nS e"
    proof (intro allI impI)
      fix m v' assume "b m = Some v'"
      from update_belief_length [OF ub this] obtain v where
        "cur e h m = Some v" "length (services v') = length (services v)" by blast
      with wf show "int (length (services v')) = nS e"
        unfolding wf_env_def by metis
    qed
    from wf have "current_state e < next_ref h'" by (simp add: wf_env_def h')
    with wf d l show ?thesis
      unfolding wf_env_def cur by simp
  qed
qed

lemma run_wf:
  "wf_env e h \<Longrightarrow> run e as h = Inr (out, h') \<Longrightarrow> wf_env e h'"
proof (induction as arbitrary: h out)
  case Nil
  then show ?case by simp
next
  case (Cons a as)
  from Cons.prems(2) obtain r h1 out1 where
    s: "step e a h = Inr (r, h1)" and r: "run e as h1 = Inr (out1, h')"
    by (auto split: sum.splits prod.splits)
  from step_wf [OF Cons.prems(1) s] Cons.IH r show ?case by blast
qed

lemma reset_eq:
  "reset e h =
     (next_ref h, e\<lparr>current_state := next_ref h\<rparr>,
      \<lparr>objs = (objs h)(next_ref h := initial_observation (observation_space e)),
       next_ref = Suc (next_ref h)\<rparr>)"
  by (simp add: reset_def get_initial_state_def alloc_def Let_def)

lemma reset_wf:
  assumes "wf_env e h" "reset e h = (r, e', h')"
  shows "wf_env e' h'"
proof -
  from assms(2) have e': "e' = e\<lparr>current_state := next_ref h\<rparr>"
    and h': "h' = \<lparr>objs = (objs h)(next_ref h := initial_observation (observation_space e)),
                   next_ref = Suc (next_ref h)\<rparr>"
    by (auto simp: reset_eq)
  have cur: "cur e' h' = initial_observation (observation_space e)"
    by (simp add: e' h')
  from assms(1) show ?thesis
    unfolding wf_env_def cur by (simp add: e' h')
qed

section \<open>AddressSpace.contains\<close>

text \<open>
  C10. \<^verbatim>\<open>AddressSpace.contains\<close> is to return a boolean for every input, also for a
  pair greater than every address of the space. It does not: for the space of three
  machines, the pairs \<^verbatim>\<open>(3, 0)\<close> and \<^verbatim>\<open>(2, 5)\<close> and the list \<^verbatim>\<open>[3, 0]\<close> are
  greater than the last address, \<^verbatim>\<open>bisect_left\<close> returns the length of the sequence
  and the read at that index raises \<^verbatim>\<open>IndexError\<close>.
\<close>

theorem contains_past_the_end:
  "new_AddressSpace 3 = Inr \<lparr>addr_nM = 3, space = [(0, 0), (1, 0), (2, 0)]\<rparr> \<and>
   contains \<lparr>addr_nM = 3, space = [(0, 0), (1, 0), (2, 0)]\<rparr> (PTuple [PInt 3, PInt 0])
     = Inl IndexError \<and>
   contains \<lparr>addr_nM = 3, space = [(0, 0), (1, 0), (2, 0)]\<rparr> (PTuple [PInt 2, PInt 5])
     = Inl IndexError \<and>
   contains \<lparr>addr_nM = 3, space = [(0, 0), (1, 0), (2, 0)]\<rparr> (PList [PInt 3, PInt 0])
     = Inl IndexError"
  by code_simp

section \<open>The example environment\<close>

lemma rng0_in_range: "rng_in_range rng0"
  by (simp add: rng_in_range_def rng0_def)

lemma demo_after_wf: "demo_after k as = Some (e, h, out) \<Longrightarrow> wf_env e h"
  by (auto simp: demo_after_def split: sum.splits intro: run_wf [OF CyberAttackEnv_wf])

section \<open>The precondition gate\<close>

text \<open>
  C2. When the target of an action is in the belief state and is not reachable or is
  already compromised, \<^verbatim>\<open>step\<close> raises nothing and changes nothing: the heap
  after the step is the heap before it. The reward is \<open>- COST_SCAN\<close> for a scan and
  \<open>- COST_EXPLOIT\<close> for an exploit, both \<open>- 10\<close>; done is false and the info map
  is empty.
\<close>

theorem step_soft_fail:
  assumes "cur e h (target a) = Some ts" and "\<not> reachable ts \<or> compromised ts"
  shows "step e a h =
           Inr ((current_state e,
                 (if action a = 0 then - COST_SCAN else - COST_EXPLOIT), False, Map.empty), h) \<and>
         - COST_SCAN = - 10 \<and> - COST_EXPLOIT = - 10"
  using step_gate [OF assms]
  by (simp add: action_cost_def SCAN_def COST_SCAN_def COST_EXPLOIT_def)

text \<open>In the example environment machine \<open>(1, 0)\<close> is not reachable at the start.\<close>

lemma demo_unreachable:
  "case demo_after 1 [] of None \<Rightarrow> False
   | Some (e, h, out) \<Rightarrow> map_option reachable (cur e h (1, 0)) = Some False"
  by code_simp

theorem step_soft_fail_witness:
  "case demo_after 1 [] of None \<Rightarrow> False
   | Some (e, h, out) \<Rightarrow>
       map_option reachable (cur e h (1, 0)) = Some False \<and>
       step e (scan (1, 0)) h = Inr ((current_state e, - 10, False, Map.empty), h) \<and>
       step e (exploit (1, 0) 1) h = Inr ((current_state e, - 10, False, Map.empty), h)"
proof (cases "demo_after 1 []")
  case None
  with demo_unreachable show ?thesis by simp
next
  case (Some p)
  obtain e h out where p: "p = (e, h, out)" by (cases p)
  have "map_option reachable (cur e h (1, 0)) = Some False"
    using demo_unreachable by (simp add: Some p)
  then obtain ts where
    ts: "cur e h (1, 0) = Some ts" and nr: "\<not> reachable ts" by auto
  from ts have t1: "cur e h (target (scan (1, 0))) = Some ts"
    and t2: "cur e h (target (exploit (1, 0) 1)) = Some ts"
    by (simp_all add: scan_def exploit_def)
  from nr have g: "\<not> reachable ts \<or> compromised ts" by simp
  from step_soft_fail [OF t1 g] step_soft_fail [OF t2 g] ts nr
  show ?thesis
    by (simp add: Some p scan_def exploit_def SCAN_def COST_SCAN_def COST_EXPLOIT_def)
qed

section \<open>Determinism\<close>

text \<open>
  Two environments with the same network and the same sensitive machines, whose current
  belief states are equal, answer every action with the same reward and done flag (or
  the same exception) and stay so related, wherever their belief states lie in the heap.
\<close>

lemma take_action_cong:
  "network e1 = network e2 \<Longrightarrow> take_action e1 a = take_action e2 a"
  by (simp add: take_action_def)

lemma step_sim:
  assumes n: "network e1 = network e2"
    and s: "sensitive_machines e1 = sensitive_machines e2"
    and c: "cur e1 h1 = cur e2 h2"
  shows "rel_sum (=)
           (\<lambda>(res1, h1') (res2, h2'). snd res1 = snd res2 \<and> cur e1 h1' = cur e2 h2')
           (step e1 a h1) (step e2 a h2)"
proof (cases "cur e1 h1 (target a)")
  case None
  then have "step e1 a h1 = Inl KeyError" "step e2 a h2 = Inl KeyError"
    using c by (simp_all add: step_def Let_def)
  then show ?thesis by simp
next
  case (Some ts)
  then have Some2: "cur e2 h2 (target a) = Some ts" using c by simp
  show ?thesis
  proof (cases "\<not> reachable ts \<or> compromised ts")
    case True
    show ?thesis
      using c by (simp add: step_gate [OF Some True] step_gate [OF Some2 True])
  next
    case False
    then have g: "reachable ts" "\<not> compromised ts" by auto
    show ?thesis
      unfolding step_pass [OF Some g] step_pass [OF Some2 g] take_action_cong [OF n] s c
      by (auto split: sum.splits prod.splits)
  qed
qed

lemma run_sim:
  assumes n: "network e1 = network e2"
    and s: "sensitive_machines e1 = sensitive_machines e2"
  shows "cur e1 h1 = cur e2 h2 \<Longrightarrow>
         map_sum id fst (run e1 as h1) = map_sum id fst (run e2 as h2)"
proof (induction as arbitrary: h1 h2)
  case Nil
  then show ?case by simp
next
  case (Cons a as)
  note sim = step_sim [OF n s Cons.prems, of a]
  show ?case
  proof (cases "step e1 a h1")
    case (Inl x)
    with sim show ?thesis by (cases "step e2 a h2") auto
  next
    case (Inr p1)
    with sim obtain p2 where p2: "step e2 a h2 = Inr p2" by (cases "step e2 a h2") auto
    obtain r1 rew1 d1 i1 h1' where p1e: "p1 = ((r1, rew1, d1, i1), h1')" by (cases p1) auto
    obtain r2 rew2 d2 i2 h2' where p2e: "p2 = ((r2, rew2, d2, i2), h2')" by (cases p2) auto
    from sim Inr p2 p1e p2e have eq: "rew1 = rew2" "d1 = d2" and c': "cur e1 h1' = cur e2 h2'"
      by auto
    from Cons.IH [OF c'] have "map_sum id fst (run e1 as h1') = map_sum id fst (run e2 as h2')" .
    then show ?thesis
      using Inr p2 p1e p2e eq
      by (cases "run e1 as h1'"; cases "run e2 as h2'") auto
  qed
qed

lemma CyberAttackEnv_cong:
  assumes "map_sum id (\<lambda>(n, s, g). (n, s)) (construct_network R n k (fst w1)) =
           map_sum id (\<lambda>(n, s, g). (n, s)) (construct_network R' n k (fst w2))"
  shows "rel_sum (=)
           (\<lambda>(e1, g1, h1) (e2, g2, h2).
              network e1 = network e2 \<and> sensitive_machines e1 = sensitive_machines e2 \<and>
              cur e1 h1 = cur e2 h2)
           (CyberAttackEnv R n k w1) (CyberAttackEnv R' n k w2)"
proof (cases "CAActionSpace n k")
  case (Inl x)
  then show ?thesis by (simp add: CyberAttackEnv_def)
next
  case asp: (Inr asp)
  show ?thesis
  proof (cases "new_CAObservationSpace n k")
    case (Inl x)
    then show ?thesis by (simp add: CyberAttackEnv_def asp)
  next
    case osp: (Inr osp)
    show ?thesis
      using assms
      by (cases "construct_network R n k (fst w1)"; cases "construct_network R' n k (fst w2)")
         (auto simp: CyberAttackEnv_def asp osp reset_eq)
  qed
qed

lemma episode_cong:
  assumes "map_sum id (\<lambda>(n, s, g). (n, s)) (construct_network R n k (fst w1)) =
           map_sum id (\<lambda>(n, s, g). (n, s)) (construct_network R' n k (fst w2))"
  shows "episode R n k w1 as = episode R' n k w2 as"
    and "ground_truth R n k w1 = ground_truth R' n k w2"
proof -
  note c = CyberAttackEnv_cong [OF assms]
  show "episode R n k w1 as = episode R' n k w2 as"
  proof (cases "CyberAttackEnv R n k w1")
    case (Inl x)
    with c show ?thesis
      by (cases "CyberAttackEnv R' n k w2") (auto simp: episode_def)
  next
    case (Inr p1)
    with c obtain p2 where p2: "CyberAttackEnv R' n k w2 = Inr p2"
      by (cases "CyberAttackEnv R' n k w2") auto
    obtain e1 g1 h1 where p1e: "p1 = (e1, g1, h1)" by (cases p1)
    obtain e2 g2 h2 where p2e: "p2 = (e2, g2, h2)" by (cases p2)
    from c Inr p2 p1e p2e have r: "network e1 = network e2"
      "sensitive_machines e1 = sensitive_machines e2" "cur e1 h1 = cur e2 h2"
      by auto
    from run_sim [OF r] show ?thesis
      by (simp add: episode_def Inr p2 p1e p2e)
  qed
  show "ground_truth R n k w1 = ground_truth R' n k w2"
    using c
    by (cases "CyberAttackEnv R n k w1"; cases "CyberAttackEnv R' n k w2")
       (auto simp: ground_truth_def)
qed

text \<open>
  C9. The constructor seeds the generator itself (the seed is the constant 1; it is not
  an argument), so two environments constructed with the same \<open>nM\<close> and \<open>nS\<close>, in
  any two worlds (states \<open>g1\<close>, \<open>g2\<close> of the global generator, heaps \<open>h1\<close>,
  \<open>h2\<close>), have the same network and the same sensitive machines, and every sequence of
  actions gives both the same sequence of rewards and done flags.
\<close>

theorem construction_and_runs_deterministic:
  "ground_truth R nM' nS' (g1, h1) = ground_truth R nM' nS' (g2, h2) \<and>
   episode R nM' nS' (g1, h1) as = episode R nM' nS' (g2, h2) as"
proof -
  have "map_sum id (\<lambda>(n, s, g). (n, s)) (construct_network R nM' nS' (fst (g1, h1))) =
        map_sum id (\<lambda>(n, s, g). (n, s)) (construct_network R nM' nS' (fst (g2, h2)))"
    by (simp add: construct_network_def)
  from episode_cong [OF this] show ?thesis by blast
qed

section \<open>Exploits\<close>

text \<open>
  With one service there is one candidate configuration, and every generator that
  draws in range builds the network of the example generator.
\<close>

lemma construct_loop_single:
  assumes "rng_in_range R" "rng_in_range R'"
  shows "map_sum id (\<lambda>(n, s, g). (n, s)) (construct_loop R [c] ms g net sens) =
         map_sum id (\<lambda>(n, s, g). (n, s)) (construct_loop R' [c] ms g' net sens)"
proof (induction ms arbitrary: g g' net sens)
  case Nil
  then show ?case by simp
next
  case (Cons m ms)
  obtain i g1 where ch: "rng_choice R g (Suc 0) = (i, g1)"
    by (cases "rng_choice R g (Suc 0)")
  obtain i' g1' where ch': "rng_choice R' g' (Suc 0) = (i', g1')"
    by (cases "rng_choice R' g' (Suc 0)")
  from assms(1) have "fst (rng_choice R g (Suc 0)) < Suc 0"
    unfolding rng_in_range_def by blast
  with ch have i: "i = 0" by simp
  from assms(2) have "fst (rng_choice R' g' (Suc 0)) < Suc 0"
    unfolding rng_in_range_def by blast
  with ch' have i': "i' = 0" by simp
  obtain val sens' where mv: "machine_value m sens = (val, sens')"
    by (cases "machine_value m sens")
  let ?net = "net(m \<mapsto> \<lparr>m_cfg = c, m_value = val\<rparr>)"
  have l: "construct_loop R [c] (m # ms) g net sens = construct_loop R [c] ms g1 ?net sens'"
    by (simp add: ch i mv)
  have r: "construct_loop R' [c] (m # ms) g' net sens = construct_loop R' [c] ms g1' ?net sens'"
    by (simp add: ch' i' mv)
  show ?case
    unfolding l r by (rule Cons.IH)
qed

lemma single_service:
  assumes "rng_in_range R"
  shows "episode R n 1 w as = episode rng0 n 1 (0, heap0) as"
    and "ground_truth R n 1 w = ground_truth rng0 n 1 (0, heap0)"
proof -
  have "map_sum id (\<lambda>(n, s, g). (n, s)) (construct_network R n 1 (fst w)) =
        map_sum id (\<lambda>(n, s, g). (n, s)) (construct_network rng0 n 1 (fst (0::nat, heap0)))"
    using construct_loop_single [OF assms rng0_in_range]
    by (cases "generate_address_space n") (simp_all add: construct_network_def permutations_1)
  from episode_cong [OF this]
  show "episode R n 1 w as = episode rng0 n 1 (0, heap0) as"
    and "ground_truth R n 1 w = ground_truth rng0 n 1 (0, heap0)"
    by blast+
qed

lemma example_rewards:
  "episode rng0 4 1 (0, heap0) [exploit (0, 0) 1, exploit (1, 0) 1] =
     Inr [(- 10, False), (8990, False)]"
  by code_simp

text \<open>
  C3. An exploit of service \<open>k - 1\<close> (\<open>0 < k \<le> nS\<close>) on a reachable, uncompromised
  target succeeds exactly when the target runs that service; the reward of the step is
  the value of the target minus \<open>COST_EXPLOIT\<close> on success and \<open>- COST_EXPLOIT\<close> on
  failure. With \<open>nM = 4\<close> and \<open>nS = 1\<close>, exploiting \<open>(0, 0)\<close> and then \<open>(1, 0)\<close>
  gives the reward 8990 on the second step.
\<close>

theorem exploit_reward:
  assumes wf: "wf_env e h"
    and ts: "cur e h (target a) = Some ts" "reachable ts" "\<not> compromised ts"
    and mach: "network e (target a) = Some mach"
    and k: "0 < action a" "action a \<le> nS e"
    and R: "rng_in_range R"
  shows "(\<exists>val srv. take_action e a = Inr (m_cfg mach ! nat (action a - 1), val, srv)) \<and>
         (\<exists>r goal h'. step e a h =
            Inr ((r, (if m_cfg mach ! nat (action a - 1) then m_value mach - COST_EXPLOIT
                      else - COST_EXPLOIT), goal, Map.empty), h')) \<and>
         map_sum id (map fst) (episode R 4 1 w [exploit (0, 0) 1, exploit (1, 0) 1])
           = Inr [- 10, 8990]"
proof -
  note len = wf_env_lengths [OF wf ts(1) mach]
  from k len have k': "action a \<le> int (length (m_cfg mach))" by simp
  note ta = take_action_exploit [OF mach k(1) k']
  have cost: "action_cost a = COST_EXPLOIT"
    using k(1) by (simp add: action_cost_def SCAN_def)
  have sens: "set (sensitive_machines e) \<subseteq> dom (cur e h)" by (rule wf_env_sens [OF wf])
  have a: "\<exists>val srv. take_action e a = Inr (m_cfg mach ! nat (action a - 1), val, srv)"
    using ta by simp
  have b: "\<exists>r goal h'. step e a h =
            Inr ((r, (if m_cfg mach ! nat (action a - 1) then m_value mach - COST_EXPLOIT
                      else - COST_EXPLOIT), goal, Map.empty), h')"
  proof (cases "m_cfg mach ! nat (action a - 1)")
    case True
    with ta have t: "take_action e a = Inr (True, m_value mach, m_cfg mach)" by simp
    from k(1) have ns: "action a \<noteq> SCAN" by (simp add: SCAN_def)
    note ub = update_belief_exploit [where b = "cur e h" and a = a, OF ts(1) ns len(1)]
    from step_result [OF ts t ub sens] True cost show ?thesis by auto
  next
    case False
    with ta have t: "take_action e a = Inr (False, 0, [])" by simp
    from k len have "action a \<le> int (length (services ts))" by simp
    note ub = update_belief_failed [where b = "cur e h" and a = a and srv = "[]", OF ts(1) k(1) this]
    from step_result [OF ts t ub sens] False cost show ?thesis by auto
  qed
  have c: "map_sum id (map fst) (episode R 4 1 w [exploit (0, 0) 1, exploit (1, 0) 1])
           = Inr [- 10, 8990]"
    by (simp add: single_service(1) [OF R] example_rewards)
  from a b c show ?thesis by blast
qed

text \<open>
  In the example environment, after the exploit of \<open>(0, 0)\<close>, machine \<open>(1, 0)\<close> is
  reachable and not compromised, runs service 0 and has the value 9000.
\<close>

lemma demo_after_first:
  "case demo_after 1 [exploit (0, 0) 1] of None \<Rightarrow> False
   | Some (e, h, out) \<Rightarrow>
       map_option reachable (cur e h (1, 0)) = Some True \<and>
       map_option compromised (cur e h (1, 0)) = Some False \<and>
       network e (1, 0) = Some \<lparr>m_cfg = [True], m_value = 9000\<rparr> \<and>
       nS e = 1"
  by code_simp

theorem exploit_reward_witness:
  "case demo_after 1 [exploit (0, 0) 1] of None \<Rightarrow> False
   | Some (e, h, out) \<Rightarrow>
       wf_env e h \<and> rng_in_range rng0 \<and>
       map_option reachable (cur e h (1, 0)) = Some True \<and>
       map_option compromised (cur e h (1, 0)) = Some False \<and>
       network e (1, 0) = Some \<lparr>m_cfg = [True], m_value = 9000\<rparr> \<and>
       (\<exists>r goal h'. step e (exploit (1, 0) 1) h = Inr ((r, 8990, goal, Map.empty), h'))"
proof (cases "demo_after 1 [exploit (0, 0) 1]")
  case None
  with demo_after_first show ?thesis by simp
next
  case (Some p)
  obtain e h out where p: "p = (e, h, out)" by (cases p)
  note d = Some [unfolded p]
  from demo_after_first have f: "map_option reachable (cur e h (1, 0)) = Some True"
    "map_option compromised (cur e h (1, 0)) = Some False"
    "network e (1, 0) = Some \<lparr>m_cfg = [True], m_value = 9000\<rparr>" "nS e = 1"
    by (simp_all add: d)
  then obtain ts where ts: "cur e h (1, 0) = Some ts" "reachable ts" "\<not> compromised ts"
    by auto
  have wf: "wf_env e h" by (rule demo_after_wf [OF d])
  have "\<exists>r goal h'. step e (exploit (1, 0) 1) h = Inr ((r, 8990, goal, Map.empty), h')"
    using exploit_reward [where a = "exploit (1, 0) 1" and e = e and h = h and ts = ts
        and mach = "\<lparr>m_cfg = [True], m_value = 9000\<rparr>" and R = rng0]
      wf ts f rng0_in_range
    by (simp add: exploit_def COST_EXPLOIT_def)
  with wf f rng0_in_range show ?thesis
    by (simp add: d)
qed

section \<open>Belief revision\<close>

text \<open>
  C4. For an action that passes the gate (kind in \<open>0..nS\<close>, environment well formed):
  after a scan or a successful exploit the services of the target in the belief state
  are \<open>PRESENT\<close> or \<open>ABSENT\<close> at every index as the true service vector says, whatever
  they were before; after a failed exploit of service \<open>k - 1\<close> the belief state is the
  one before with index \<open>k - 1\<close> of the target's services set to \<open>ABSENT\<close>, nothing
  else changed.
\<close>

theorem belief_revision:
  assumes wf: "wf_env e h"
    and ts: "cur e h (target a) = Some ts" "reachable ts" "\<not> compromised ts"
    and mach: "network e (target a) = Some mach"
    and k: "0 \<le> action a" "action a \<le> nS e"
  shows "\<exists>res h'. step e a h = Inr (res, h') \<and>
           (if action a = SCAN \<or> m_cfg mach ! nat (action a - 1)
            then (\<exists>ts'. cur e h' (target a) = Some ts' \<and>
                   services ts' = map (\<lambda>s. if s then PRESENT else ABSENT) (m_cfg mach))
            else nat (action a - 1) < length (services ts) \<and>
                 cur e h' = (cur e h)(target a \<mapsto>
                              ts\<lparr>services := (services ts)[nat (action a - 1) := ABSENT]\<rparr>))"
proof -
  note len = wf_env_lengths [OF wf ts(1) mach]
  have sens: "set (sensitive_machines e) \<subseteq> dom (cur e h)" by (rule wf_env_sens [OF wf])
  show ?thesis
  proof (cases "action a = SCAN")
    case True
    note t = take_action_scan [OF mach True]
    note ub = update_belief_scan [where b = "cur e h" and a = a, OF ts(1) True len(1)]
    from step_result [OF ts t ub sens] True show ?thesis by simp
  next
    case ns: False
    with k(1) have pos: "0 < action a" by (simp add: SCAN_def)
    from k len have k': "action a \<le> int (length (m_cfg mach))" by simp
    note ta = take_action_exploit [OF mach pos k']
    show ?thesis
    proof (cases "m_cfg mach ! nat (action a - 1)")
      case True
      with ta have t: "take_action e a = Inr (True, m_value mach, m_cfg mach)" by simp
      note ub = update_belief_exploit [where b = "cur e h" and a = a, OF ts(1) ns len(1)]
      from step_result [OF ts t ub sens] True show ?thesis by simp
    next
      case False
      with ta have t: "take_action e a = Inr (False, 0, [])" by simp
      from k len have le: "action a \<le> int (length (services ts))" by simp
      with pos have lt: "nat (action a - 1) < length (services ts)" by linarith
      note ub = update_belief_failed [where b = "cur e h" and a = a and srv = "[]",
          OF ts(1) pos le]
      from step_result [OF ts t ub sens] False ns lt show ?thesis by simp
    qed
  qed
qed

text \<open>
  The example environment with two services: machine \<open>(0, 0)\<close> runs service 1 only.
\<close>

lemma demo2_start:
  "case demo_after 2 [] of None \<Rightarrow> False
   | Some (e, h, out) \<Rightarrow>
       map_option reachable (cur e h (0, 0)) = Some True \<and>
       map_option compromised (cur e h (0, 0)) = Some False \<and>
       map_option services (cur e h (0, 0)) = Some [UNKNOWN, UNKNOWN] \<and>
       network e (0, 0) = Some \<lparr>m_cfg = [False, True], m_value = 0\<rparr> \<and>
       nS e = 2"
  by code_simp

theorem belief_revision_witness:
  "case demo_after 2 [] of None \<Rightarrow> False
   | Some (e, h, out) \<Rightarrow>
       wf_env e h \<and>
       map_option reachable (cur e h (0, 0)) = Some True \<and>
       map_option compromised (cur e h (0, 0)) = Some False \<and>
       network e (0, 0) = Some \<lparr>m_cfg = [False, True], m_value = 0\<rparr> \<and>
       (\<exists>res h'. step e (exploit (0, 0) 1) h = Inr (res, h') \<and>
          map_option services (cur e h' (0, 0)) = Some [ABSENT, UNKNOWN]) \<and>
       (\<exists>res h'. step e (exploit (0, 0) 2) h = Inr (res, h') \<and>
          map_option services (cur e h' (0, 0)) = Some [ABSENT, PRESENT]) \<and>
       (\<exists>res h'. step e (scan (0, 0)) h = Inr (res, h') \<and>
          map_option services (cur e h' (0, 0)) = Some [ABSENT, PRESENT])"
proof (cases "demo_after 2 []")
  case None
  with demo2_start show ?thesis by simp
next
  case (Some p)
  obtain e h out where p: "p = (e, h, out)" by (cases p)
  note d = Some [unfolded p]
  from demo2_start have f: "map_option reachable (cur e h (0, 0)) = Some True"
    "map_option compromised (cur e h (0, 0)) = Some False"
    "network e (0, 0) = Some \<lparr>m_cfg = [False, True], m_value = 0\<rparr>" "nS e = 2"
    and sv: "map_option services (cur e h (0, 0)) = Some [UNKNOWN, UNKNOWN]"
    by (simp_all add: d)
  then obtain ts where ts: "cur e h (0, 0) = Some ts" "reachable ts" "\<not> compromised ts"
    "services ts = [UNKNOWN, UNKNOWN]"
    by auto
  have wf: "wf_env e h" by (rule demo_after_wf [OF d])
  have a: "\<exists>res h'. step e (exploit (0, 0) 1) h = Inr (res, h') \<and>
          map_option services (cur e h' (0, 0)) = Some [ABSENT, UNKNOWN]"
    using belief_revision [where a = "exploit (0, 0) 1" and e = e and h = h and ts = ts
        and mach = "\<lparr>m_cfg = [False, True], m_value = 0\<rparr>"]
      wf ts f
    by (auto simp: exploit_def SCAN_def)
  have b: "\<exists>res h'. step e (exploit (0, 0) 2) h = Inr (res, h') \<and>
          map_option services (cur e h' (0, 0)) = Some [ABSENT, PRESENT]"
    using belief_revision [where a = "exploit (0, 0) 2" and e = e and h = h and ts = ts
        and mach = "\<lparr>m_cfg = [False, True], m_value = 0\<rparr>"]
      wf ts f
    by (auto simp: exploit_def SCAN_def)
  have c: "\<exists>res h'. step e (scan (0, 0)) h = Inr (res, h') \<and>
          map_option services (cur e h' (0, 0)) = Some [ABSENT, PRESENT]"
    using belief_revision [where a = "scan (0, 0)" and e = e and h = h and ts = ts
        and mach = "\<lparr>m_cfg = [False, True], m_value = 0\<rparr>"]
      wf ts f
    by (auto simp: scan_def SCAN_def)
  from wf f a b c show ?thesis
    by (simp add: d)
qed

section \<open>Reachability\<close>

text \<open>
  C5. After a successful exploit (kind \<open>k\<close> in \<open>1..nS\<close>, the target runs service
  \<open>k - 1\<close>, the action passes the gate): when the target is on subnet 0, every machine
  of the belief state is reachable after the step; otherwise no machine's
  \<open>reachable\<close> field has changed. The machines of the belief state are the same
  before and after.
\<close>

theorem reachability_propagation:
  assumes wf: "wf_env e h"
    and ts: "cur e h (target a) = Some ts" "reachable ts" "\<not> compromised ts"
    and mach: "network e (target a) = Some mach"
    and k: "0 < action a" "action a \<le> nS e"
    and succ: "m_cfg mach ! nat (action a - 1)"
  shows "\<exists>res h'. step e a h = Inr (res, h') \<and> dom (cur e h') = dom (cur e h) \<and>
           (if fst (target a) = 0
            then (\<forall>m v. cur e h' m = Some v \<longrightarrow> reachable v)
            else (\<forall>m. map_option reachable (cur e h' m) = map_option reachable (cur e h m)))"
proof -
  note len = wf_env_lengths [OF wf ts(1) mach]
  have sens: "set (sensitive_machines e) \<subseteq> dom (cur e h)" by (rule wf_env_sens [OF wf])
  from k(1) have ns: "action a \<noteq> SCAN" by (simp add: SCAN_def)
  from k len have k': "action a \<le> int (length (m_cfg mach))" by simp
  from take_action_exploit [OF mach k(1) k'] succ
  have t: "take_action e a = Inr (True, m_value mach, m_cfg mach)" by simp
  note ub = update_belief_exploit [where b = "cur e h" and a = a, OF ts(1) ns len(1)]
  note d = update_belief_dom [OF ub]
  show ?thesis
  proof (cases "fst (target a) = 0")
    case True
    from step_result [OF ts t ub sens] d True show ?thesis
      by (auto split: if_splits)
  next
    case False
    from step_result [OF ts t ub sens] d False ts(1,2) show ?thesis
      by auto
  qed
qed

text \<open>
  In the example environment, at the start: the exploit of \<open>(0, 0)\<close> makes the three
  other machines reachable. After it: the exploit of \<open>(1, 0)\<close> changes no
  \<open>reachable\<close> field.
\<close>

lemma demo_start:
  "case demo_after 1 [] of None \<Rightarrow> False
   | Some (e, h, out) \<Rightarrow>
       map_option reachable (cur e h (0, 0)) = Some True \<and>
       map_option compromised (cur e h (0, 0)) = Some False \<and>
       map (\<lambda>m. map_option reachable (cur e h m)) [(1, 0), (2, 0), (2, 1)]
         = [Some False, Some False, Some False] \<and>
       network e (0, 0) = Some \<lparr>m_cfg = [True], m_value = 0\<rparr> \<and>
       nS e = 1"
  by code_simp

theorem reachability_propagation_witness:
  "(case demo_after 1 [] of None \<Rightarrow> False
    | Some (e, h, out) \<Rightarrow>
        wf_env e h \<and>
        map_option reachable (cur e h (0, 0)) = Some True \<and>
        map_option compromised (cur e h (0, 0)) = Some False \<and>
        network e (0, 0) = Some \<lparr>m_cfg = [True], m_value = 0\<rparr> \<and>
        map (\<lambda>m. map_option reachable (cur e h m)) [(1, 0), (2, 0), (2, 1)]
          = [Some False, Some False, Some False] \<and>
        (\<exists>res h'. step e (exploit (0, 0) 1) h = Inr (res, h') \<and>
           map (\<lambda>m. map_option reachable (cur e h' m)) [(1, 0), (2, 0), (2, 1)]
             = [Some True, Some True, Some True])) \<and>
   (case demo_after 1 [exploit (0, 0) 1] of None \<Rightarrow> False
    | Some (e, h, out) \<Rightarrow>
        wf_env e h \<and>
        map_option reachable (cur e h (1, 0)) = Some True \<and>
        map_option compromised (cur e h (1, 0)) = Some False \<and>
        network e (1, 0) = Some \<lparr>m_cfg = [True], m_value = 9000\<rparr> \<and>
        (\<exists>res h'. step e (exploit (1, 0) 1) h = Inr (res, h') \<and>
           map (\<lambda>m. map_option reachable (cur e h' m)) [(0, 0), (1, 0), (2, 0), (2, 1)]
             = map (\<lambda>m. map_option reachable (cur e h m)) [(0, 0), (1, 0), (2, 0), (2, 1)]))"
proof -
  have one: "case demo_after 1 [] of None \<Rightarrow> False
    | Some (e, h, out) \<Rightarrow>
        wf_env e h \<and>
        map_option reachable (cur e h (0, 0)) = Some True \<and>
        map_option compromised (cur e h (0, 0)) = Some False \<and>
        network e (0, 0) = Some \<lparr>m_cfg = [True], m_value = 0\<rparr> \<and>
        map (\<lambda>m. map_option reachable (cur e h m)) [(1, 0), (2, 0), (2, 1)]
          = [Some False, Some False, Some False] \<and>
        (\<exists>res h'. step e (exploit (0, 0) 1) h = Inr (res, h') \<and>
           map (\<lambda>m. map_option reachable (cur e h' m)) [(1, 0), (2, 0), (2, 1)]
             = [Some True, Some True, Some True])"
  proof (cases "demo_after 1 []")
    case None
    with demo_start show ?thesis by simp
  next
    case (Some p)
    obtain e h out where p: "p = (e, h, out)" by (cases p)
    note d = Some [unfolded p]
    from demo_start have f: "map_option reachable (cur e h (0, 0)) = Some True"
      "map_option compromised (cur e h (0, 0)) = Some False"
      "network e (0, 0) = Some \<lparr>m_cfg = [True], m_value = 0\<rparr>" "nS e = 1"
      and others: "map (\<lambda>m. map_option reachable (cur e h m)) [(1, 0), (2, 0), (2, 1)]
          = [Some False, Some False, Some False]"
      by (simp_all add: d)
    then obtain ts where ts: "cur e h (0, 0) = Some ts" "reachable ts" "\<not> compromised ts"
      by auto
    have wf: "wf_env e h" by (rule demo_after_wf [OF d])
    from others have dom: "(1, 0) \<in> dom (cur e h)" "(2, 0) \<in> dom (cur e h)"
      "(2, 1) \<in> dom (cur e h)" by auto
    have pre: "cur e h (target (exploit (0, 0) 1)) = Some ts"
      "network e (target (exploit (0, 0) 1)) = Some \<lparr>m_cfg = [True], m_value = 0\<rparr>"
      "0 < action (exploit (0, 0) 1)" "action (exploit (0, 0) 1) \<le> nS e"
      "m_cfg \<lparr>m_cfg = [True], m_value = 0\<rparr> ! nat (action (exploit (0, 0) 1) - 1)"
      using ts f by (simp_all add: exploit_def)
    from reachability_propagation [OF wf pre(1) ts(2,3) pre(2-5)]
    obtain res h' where st: "step e (exploit (0, 0) 1) h = Inr (res, h')"
      and dm: "dom (cur e h') = dom (cur e h)"
      and all: "\<forall>m v. cur e h' m = Some v \<longrightarrow> reachable v"
      by (auto simp: exploit_def)
    have r: "map_option reachable (cur e h' m) = Some True" if "m \<in> dom (cur e h)" for m
    proof -
      from that dm obtain v where v: "cur e h' m = Some v" by blast
      with all have "reachable v" by blast
      with v show ?thesis by simp
    qed
    have m: "map (\<lambda>m. map_option reachable (cur e h' m)) [(1, 0), (2, 0), (2, 1)]
             = [Some True, Some True, Some True]"
      using dom by (simp add: r)
    have "\<exists>res h'. step e (exploit (0, 0) 1) h = Inr (res, h') \<and>
           map (\<lambda>m. map_option reachable (cur e h' m)) [(1, 0), (2, 0), (2, 1)]
             = [Some True, Some True, Some True]"
      by (rule exI [of _ res], rule exI [of _ h'], rule conjI [OF st m])
    with wf f others show ?thesis by (simp add: d)
  qed
  have two: "case demo_after 1 [exploit (0, 0) 1] of None \<Rightarrow> False
    | Some (e, h, out) \<Rightarrow>
        wf_env e h \<and>
        map_option reachable (cur e h (1, 0)) = Some True \<and>
        map_option compromised (cur e h (1, 0)) = Some False \<and>
        network e (1, 0) = Some \<lparr>m_cfg = [True], m_value = 9000\<rparr> \<and>
        (\<exists>res h'. step e (exploit (1, 0) 1) h = Inr (res, h') \<and>
           map (\<lambda>m. map_option reachable (cur e h' m)) [(0, 0), (1, 0), (2, 0), (2, 1)]
             = map (\<lambda>m. map_option reachable (cur e h m)) [(0, 0), (1, 0), (2, 0), (2, 1)])"
  proof (cases "demo_after 1 [exploit (0, 0) 1]")
    case None
    with demo_after_first show ?thesis by simp
  next
    case (Some p)
    obtain e h out where p: "p = (e, h, out)" by (cases p)
    note d = Some [unfolded p]
    from demo_after_first have f: "map_option reachable (cur e h (1, 0)) = Some True"
      "map_option compromised (cur e h (1, 0)) = Some False"
      "network e (1, 0) = Some \<lparr>m_cfg = [True], m_value = 9000\<rparr>" "nS e = 1"
      by (simp_all add: d)
    then obtain ts where ts: "cur e h (1, 0) = Some ts" "reachable ts" "\<not> compromised ts"
      by auto
    have wf: "wf_env e h" by (rule demo_after_wf [OF d])
    have pre: "cur e h (target (exploit (1, 0) 1)) = Some ts"
      "network e (target (exploit (1, 0) 1)) = Some \<lparr>m_cfg = [True], m_value = 9000\<rparr>"
      "0 < action (exploit (1, 0) 1)" "action (exploit (1, 0) 1) \<le> nS e"
      "m_cfg \<lparr>m_cfg = [True], m_value = 9000\<rparr> ! nat (action (exploit (1, 0) 1) - 1)"
      using ts f by (simp_all add: exploit_def)
    from reachability_propagation [OF wf pre(1) ts(2,3) pre(2-5)]
    obtain res h' where st: "step e (exploit (1, 0) 1) h = Inr (res, h')"
      and same: "\<forall>m. map_option reachable (cur e h' m) = map_option reachable (cur e h m)"
      by (auto simp: exploit_def)
    have m: "map (\<lambda>m. map_option reachable (cur e h' m)) [(0, 0), (1, 0), (2, 0), (2, 1)]
             = map (\<lambda>m. map_option reachable (cur e h m)) [(0, 0), (1, 0), (2, 0), (2, 1)]"
      by (simp add: same)
    have "\<exists>res h'. step e (exploit (1, 0) 1) h = Inr (res, h') \<and>
           map (\<lambda>m. map_option reachable (cur e h' m)) [(0, 0), (1, 0), (2, 0), (2, 1)]
             = map (\<lambda>m. map_option reachable (cur e h m)) [(0, 0), (1, 0), (2, 0), (2, 1)]"
      by (rule exI [of _ res], rule exI [of _ h'], rule conjI [OF st m])
    with wf f show ?thesis by (simp add: d)
  qed
  from one two show ?thesis by blast
qed

section \<open>Monotonicity\<close>

lemma step_mono:
  assumes st: "step e a h = Inr (res, h')" and v: "cur e h m = Some v"
  shows "\<exists>v'. cur e h' m = Some v' \<and> (reachable v \<longrightarrow> reachable v') \<and>
           (compromised v \<longrightarrow> compromised v')"
proof (cases "cur e h (target a)")
  case None
  with st show ?thesis by (simp add: step_def Let_def)
next
  case (Some ts)
  show ?thesis
  proof (cases "\<not> reachable ts \<or> compromised ts")
    case True
    from step_gate [OF Some True] st v show ?thesis by simp
  next
    case False
    then have g: "reachable ts" "\<not> compromised ts" by auto
    from st obtain success val srv b where
      ub: "update_belief a success srv (cur e h) = Inr b" and
      h': "h' = \<lparr>objs = (objs h)(current_state e := b, next_ref h := b),
                 next_ref = Suc (next_ref h)\<rparr>"
      unfolding step_pass [OF Some g]
      by (auto split: sum.splits prod.splits)
    have cur: "cur e h' = b" by (simp add: h')
    from update_belief_mono [OF ub v] show ?thesis
      unfolding cur by blast
  qed
qed

text \<open>
  C6. Over any sequence of \<^verbatim>\<open>step\<close> calls on an environment (an episode, or a part
  of one), a machine of the belief state stays in it, a reachable machine stays
  reachable and a compromised machine stays compromised. One call is the sequence of
  length one.
\<close>

theorem flags_monotone:
  assumes "run e as h = Inr (out, h')" and "cur e h m = Some v"
  shows "\<exists>v'. cur e h' m = Some v' \<and> (reachable v \<longrightarrow> reachable v') \<and>
           (compromised v \<longrightarrow> compromised v')"
  using assms
proof (induction as arbitrary: h out v)
  case Nil
  then show ?case by simp
next
  case (Cons a as)
  from Cons.prems(1) obtain res h1 out1 where
    s: "step e a h = Inr (res, h1)" and r: "run e as h1 = Inr (out1, h')"
    by (auto split: sum.splits prod.splits)
  from step_mono [OF s Cons.prems(2)] obtain v1 where
    v1: "cur e h1 m = Some v1" "reachable v \<longrightarrow> reachable v1"
      "compromised v \<longrightarrow> compromised v1"
    by blast
  from Cons.IH [OF r v1(1)] obtain v' where
    "cur e h' m = Some v'" "reachable v1 \<longrightarrow> reachable v'"
      "compromised v1 \<longrightarrow> compromised v'"
    by blast
  with v1 show ?case by blast
qed

text \<open>
  In the example environment, after the exploits of \<open>(0, 0)\<close> and \<open>(1, 0)\<close>, machine
  \<open>(1, 0)\<close> is reachable and compromised, and three more steps run without exception.
\<close>

lemma demo_run:
  "case demo_after 1 [exploit (0, 0) 1, exploit (1, 0) 1] of None \<Rightarrow> False
   | Some (e, h, out) \<Rightarrow>
       map_option reachable (cur e h (1, 0)) = Some True \<and>
       map_option compromised (cur e h (1, 0)) = Some True \<and>
       (case run e [exploit (1, 0) 1, scan (2, 0), exploit (2, 1) 1] h of
          Inl x \<Rightarrow> False
        | Inr p \<Rightarrow> True)"
  by code_simp

theorem flags_monotone_witness:
  "case demo_after 1 [exploit (0, 0) 1, exploit (1, 0) 1] of None \<Rightarrow> False
   | Some (e, h, out) \<Rightarrow>
       map_option reachable (cur e h (1, 0)) = Some True \<and>
       map_option compromised (cur e h (1, 0)) = Some True \<and>
       (case run e [exploit (1, 0) 1, scan (2, 0), exploit (2, 1) 1] h of
          Inl x \<Rightarrow> False
        | Inr (out', h') \<Rightarrow>
            map_option reachable (cur e h' (1, 0)) = Some True \<and>
            map_option compromised (cur e h' (1, 0)) = Some True)"
proof (cases "demo_after 1 [exploit (0, 0) 1, exploit (1, 0) 1]")
  case None
  with demo_run show ?thesis by simp
next
  case (Some p)
  obtain e h out where p: "p = (e, h, out)" by (cases p)
  note d = Some [unfolded p]
  let ?as = "[exploit (1, 0) 1, scan (2, 0), exploit (2, 1) 1]"
  from demo_run have f: "map_option reachable (cur e h (1, 0)) = Some True"
    "map_option compromised (cur e h (1, 0)) = Some True"
    and ok: "case run e ?as h of Inl x \<Rightarrow> False | Inr p \<Rightarrow> True"
    by (simp_all add: d del: run.simps)
  from f obtain v where v: "cur e h (1, 0) = Some v" "reachable v" "compromised v"
    by auto
  from ok obtain out' h' where r: "run e ?as h = Inr (out', h')"
    by (cases "run e ?as h") (auto simp del: run.simps)
  from flags_monotone [OF r v(1)] v(2,3)
  have "map_option reachable (cur e h' (1, 0)) = Some True"
    "map_option compromised (cur e h' (1, 0)) = Some True"
    by auto
  with f show ?thesis
    by (simp add: d r del: run.simps)
qed

section \<open>Service configurations\<close>

text \<open>
  C7. For \<open>nS > 0\<close> the candidate configurations \<^verbatim>\<open>permutations(nS)[:-1]\<close> are the
  boolean vectors of length \<open>nS\<close> except the all-false one, each once, \<open>2 ^ nS - 1\<close> of
  them; every machine of a generated network has one of them as its services, so it
  runs at least one service.
\<close>

theorem service_configurations:
  assumes "0 < k"
  shows "set (butlast (permutations k)) = {v. length v = nat k} - {replicate (nat k) False} \<and>
         distinct (butlast (permutations k)) \<and>
         length (butlast (permutations k)) = 2 ^ nat k - 1 \<and>
         (construct_network R n k g = Inr (net, sens, g') \<and> net m = Some mach \<longrightarrow>
            m_cfg mach \<in> set (butlast (permutations k)) \<and> True \<in> set (m_cfg mach))"
proof -
  have d: "m_cfg mach \<in> set (butlast (permutations k)) \<and> True \<in> set (m_cfg mach)"
    if c: "construct_network R n k g = Inr (net, sens, g')" and m: "net m = Some mach"
  proof -
    from c obtain addrs where
      "construct_loop R (butlast (permutations k)) addrs (rng_seed R 1) Map.empty []
         = Inr (net, sens, g')"
      by (auto simp: construct_network_def Let_def split: sum.splits)
    from construct_loop_result [OF this]
    have "\<forall>m mach. net m = Some mach \<longrightarrow>
        Map.empty m = Some mach \<or>
        (m \<in> set addrs \<and> m_cfg mach \<in> set (butlast (permutations k)) \<and>
         m_value mach = (if snd m mod 10 = 0 \<and> fst m = 1 then R_SENSITIVE
                         else if snd m mod 10 = 0 \<and> fst m = 2 then R_USER else 0))"
      by (rule conjunct2 [THEN conjunct2])
    then have "Map.empty m = Some mach \<or>
        (m \<in> set addrs \<and> m_cfg mach \<in> set (butlast (permutations k)) \<and>
         m_value mach = (if snd m mod 10 = 0 \<and> fst m = 1 then R_SENSITIVE
                         else if snd m mod 10 = 0 \<and> fst m = 2 then R_USER else 0))"
      using m by blast
    then have in_cfg: "m_cfg mach \<in> set (butlast (permutations k))" by simp
    from configs_have_service [OF assms in_cfg] in_cfg show ?thesis by simp
  qed
  note a = configs_props(1) [OF assms]
  note b = configs_props(2) [OF assms]
  note c = configs_props(3) [OF assms]
  from d have "construct_network R n k g = Inr (net, sens, g') \<and> net m = Some mach \<longrightarrow>
            m_cfg mach \<in> set (butlast (permutations k)) \<and> True \<in> set (m_cfg mach)"
    by (intro impI) (elim conjE)
  with a b c show ?thesis by (intro conjI)
qed

lemma demo2_network:
  "butlast (permutations 2) = [[True, True], [False, True], [True, False]] \<and>
   (case construct_network rng0 4 2 0 of Inl x \<Rightarrow> False
    | Inr (net, sens, g) \<Rightarrow>
        map (\<lambda>m. map_option m_cfg (net m)) [(0, 0), (1, 0), (2, 0), (2, 1)]
          = [Some [False, True], Some [True, False], Some [True, True], Some [False, True]])"
  by code_simp

theorem service_configurations_witness:
  "(0::int) < 2 \<and>
   butlast (permutations 2) = [[True, True], [False, True], [True, False]] \<and>
   set [[True, True], [False, True], [True, False]]
     = {v. length v = nat 2} - {replicate (nat 2) False} \<and>
   (case construct_network rng0 4 2 0 of Inl x \<Rightarrow> False
    | Inr (net, sens, g) \<Rightarrow>
        map (\<lambda>m. map_option m_cfg (net m)) [(0, 0), (1, 0), (2, 0), (2, 1)]
          = [Some [False, True], Some [True, False], Some [True, True], Some [False, True]])"
proof -
  have pos: "(0::int) < 2" by simp
  have l: "butlast (permutations 2) = [[True, True], [False, True], [True, False]]"
    by (rule conjunct1 [OF demo2_network])
  have "set (butlast (permutations 2)) = {v. length v = nat 2} - {replicate (nat 2) False}"
    by (rule conjunct1 [OF service_configurations [OF pos]])
  then have s: "set [[True, True], [False, True], [True, False]]
     = {v. length v = nat 2} - {replicate (nat 2) False}"
    by (simp only: l)
  show ?thesis
    by (intro conjI pos l s conjunct2 [OF demo2_network])
qed

section \<open>Goal detection\<close>

lemma is_goal_eq:
  assumes "wf_env e h"
  shows "is_goal e h =
           Inr (\<forall>m\<in>set (sensitive_machines e). \<exists>v. cur e h m = Some v \<and> compromised v)"
  unfolding is_goal_def by (rule goal_loop_eq [OF wf_env_sens [OF assms]])

lemma step_done:
  assumes wf: "wf_env e h"
    and ts: "cur e h (target a) = Some ts"
    and st: "step e a h = Inr ((r, rew, dn, i), h')"
  shows "dn \<longleftrightarrow> reachable ts \<and> \<not> compromised ts \<and>
           (\<forall>m\<in>set (sensitive_machines e). \<exists>v. cur e h' m = Some v \<and> compromised v)"
proof (cases "\<not> reachable ts \<or> compromised ts")
  case True
  from step_gate [OF ts True] st have "dn = False" by simp
  with True show ?thesis by auto
next
  case False
  then have g: "reachable ts" "\<not> compromised ts" by auto
  from st obtain success val srv b where
    ta: "take_action e a = Inr (success, val, srv)" and
    ub: "update_belief a success srv (cur e h) = Inr b"
    unfolding step_pass [OF ts g]
    by (auto split: sum.splits prod.splits)
  from step_result [OF ts g ta ub wf_env_sens [OF wf]] st
  have dn: "dn = (\<forall>m\<in>set (sensitive_machines e). \<exists>v. b m = Some v \<and> compromised v)"
    and h': "h' = \<lparr>objs = (objs h)(current_state e := b, next_ref h := b),
                   next_ref = Suc (next_ref h)\<rparr>"
    by simp_all
  have "cur e h' = b" by (simp add: h')
  with dn g show ?thesis by simp
qed

lemma example_done:
  "map_sum id (map snd)
     (episode rng0 4 1 (0, heap0) [exploit (0, 0) 1, exploit (1, 0) 1, exploit (2, 0) 1])
     = Inr [False, False, True]"
  by code_simp

text \<open>
  C8, as stated, fails: \<^verbatim>\<open>step\<close> returns done = false from the precondition gate
  without calling \<^verbatim>\<open>is_goal\<close>. In the example environment, after the exploits of
  \<open>(0, 0)\<close>, \<open>(1, 0)\<close> and \<open>(2, 0)\<close> both sensitive machines are compromised and
  \<^verbatim>\<open>is_goal\<close> is true; one more exploit of \<open>(2, 0)\<close> is stopped by the gate and
  returns done = false, with both machines still compromised.
\<close>

theorem done_false_in_goal_state:
  "case demo_after 1 [exploit (0, 0) 1, exploit (1, 0) 1, exploit (2, 0) 1] of
     None \<Rightarrow> False
   | Some (e, h, out) \<Rightarrow>
       sensitive_machines e = [(1, 0), (2, 0)] \<and>
       map (\<lambda>m. map_option compromised (cur e h m)) (sensitive_machines e)
         = [Some True, Some True] \<and>
       is_goal e h = Inr True \<and>
       map_sum id
         (\<lambda>((r, reward, goal, i), h').
            (goal, map (\<lambda>m. map_option compromised (cur e h' m)) (sensitive_machines e)))
         (step e (exploit (2, 0) 1) h)
         = Inr (False, [Some True, Some True])"
  by code_simp

text \<open>
  C8, amended. The sensitive machines of a constructed environment are the addresses
  of the address space, in order, whose id is a multiple of 10 and whose subnet is 1 or
  2. \<^verbatim>\<open>is_goal\<close> is true exactly when each of them is compromised in the current
  belief state. The done flag of \<^verbatim>\<open>step\<close> is true exactly when the action passes
  the gate and each of them is compromised in the belief state after the step. With
  \<open>nM = 4\<close> and \<open>nS = 1\<close>, the exploits of \<open>(0, 0)\<close>, \<open>(1, 0)\<close> and \<open>(2, 0)\<close> give
  done = false, false, true.
\<close>

theorem goal_detection:
  assumes init: "CyberAttackEnv R n k w = Inr (e, g, h0)"
    and wf: "wf_env e h"
    and ts: "cur e h (target a) = Some ts"
    and st: "step e a h = Inr ((r, rew, dn, i), h')"
    and R': "rng_in_range R'"
  shows "(\<exists>addrs. generate_address_space n = Inr addrs \<and>
            sensitive_machines e =
              filter (\<lambda>m. snd m mod 10 = 0 \<and> (fst m = 1 \<or> fst m = 2)) addrs) \<and>
         is_goal e h =
           Inr (\<forall>m\<in>set (sensitive_machines e). \<exists>v. cur e h m = Some v \<and> compromised v) \<and>
         (dn \<longleftrightarrow> reachable ts \<and> \<not> compromised ts \<and>
            (\<forall>m\<in>set (sensitive_machines e). \<exists>v. cur e h' m = Some v \<and> compromised v)) \<and>
         map_sum id (map snd)
           (episode R' 4 1 w' [exploit (0, 0) 1, exploit (1, 0) 1, exploit (2, 0) 1])
           = Inr [False, False, True]"
proof -
  from CyberAttackEnv_Inr [OF init] obtain addrs where
    ga: "generate_address_space n = Inr addrs" and
    loop: "construct_loop R (butlast (permutations k)) addrs (rng_seed R 1) Map.empty []
       = Inr (network e, sensitive_machines e, g)"
    by blast
  from construct_loop_result [OF loop]
  have "sensitive_machines e =
          [] @ filter (\<lambda>m. snd m mod 10 = 0 \<and> (fst m = 1 \<or> fst m = 2)) addrs"
    by (rule conjunct2 [THEN conjunct1])
  with ga have a: "\<exists>addrs. generate_address_space n = Inr addrs \<and>
            sensitive_machines e =
              filter (\<lambda>m. snd m mod 10 = 0 \<and> (fst m = 1 \<or> fst m = 2)) addrs"
    by simp
  note b = is_goal_eq [OF wf]
  note c = step_done [OF wf ts st]
  have d: "map_sum id (map snd)
           (episode R' 4 1 w' [exploit (0, 0) 1, exploit (1, 0) 1, exploit (2, 0) 1])
           = Inr [False, False, True]"
    by (simp only: single_service(1) [OF R'] example_done)
  show ?thesis by (intro conjI a b c d)
qed

lemma demo_after_Some:
  assumes "demo_after k as = Some (e, h, out)"
  shows "\<exists>g h0. CyberAttackEnv rng0 4 k (0, heap0) = Inr (e, g, h0)"
  using assms by (auto simp: demo_after_def split: sum.splits)

text \<open>
  In the example environment, after the exploits of \<open>(0, 0)\<close> and \<open>(1, 0)\<close>: machine
  \<open>(2, 0)\<close> is reachable and not compromised, and its exploit leaves both sensitive
  machines compromised.
\<close>

lemma demo_before_goal:
  "case demo_after 1 [exploit (0, 0) 1, exploit (1, 0) 1] of None \<Rightarrow> False
   | Some (e, h, out) \<Rightarrow>
       sensitive_machines e = [(1, 0), (2, 0)] \<and>
       map_option reachable (cur e h (2, 0)) = Some True \<and>
       map_option compromised (cur e h (2, 0)) = Some False \<and>
       (case step e (exploit (2, 0) 1) h of Inl x \<Rightarrow> False
        | Inr ((r, reward, goal, i), h') \<Rightarrow>
            map (\<lambda>m. map_option compromised (cur e h' m)) [(1, 0), (2, 0)]
              = [Some True, Some True])"
  by code_simp

theorem goal_detection_witness:
  "case demo_after 1 [exploit (0, 0) 1, exploit (1, 0) 1] of None \<Rightarrow> False
   | Some (e, h, out) \<Rightarrow>
       wf_env e h \<and> rng_in_range rng0 \<and>
       sensitive_machines e = [(1, 0), (2, 0)] \<and>
       map_option reachable (cur e h (2, 0)) = Some True \<and>
       map_option compromised (cur e h (2, 0)) = Some False \<and>
       (case step e (exploit (2, 0) 1) h of Inl x \<Rightarrow> False
        | Inr ((r, reward, goal, i), h') \<Rightarrow>
            goal \<and>
            map (\<lambda>m. map_option compromised (cur e h' m)) [(1, 0), (2, 0)]
              = [Some True, Some True])"
proof (cases "demo_after 1 [exploit (0, 0) 1, exploit (1, 0) 1]")
  case None
  with demo_before_goal show ?thesis by simp
next
  case (Some p)
  obtain e h out where p: "p = (e, h, out)" by (cases p)
  note d = Some [unfolded p]
  let ?a = "exploit (2, 0) 1"
  from demo_before_goal have f: "sensitive_machines e = [(1, 0), (2, 0)]"
    "map_option reachable (cur e h (2, 0)) = Some True"
    "map_option compromised (cur e h (2, 0)) = Some False"
    and ok: "case step e ?a h of Inl x \<Rightarrow> False
        | Inr ((r, reward, goal, i), h') \<Rightarrow>
            map (\<lambda>m. map_option compromised (cur e h' m)) [(1, 0), (2, 0)]
              = [Some True, Some True]"
    by (simp_all add: d)
  from f obtain ts where ts: "cur e h (2, 0) = Some ts" "reachable ts" "\<not> compromised ts"
    by auto
  then have ts': "cur e h (target ?a) = Some ts" by (simp add: exploit_def)
  from ok obtain r rew dn i h' where st: "step e ?a h = Inr ((r, rew, dn, i), h')"
    by (cases "step e ?a h") auto
  from ok have after: "map (\<lambda>m. map_option compromised (cur e h' m)) [(1, 0), (2, 0)]
              = [Some True, Some True]"
    by (simp add: st)
  have wf: "wf_env e h" by (rule demo_after_wf [OF d])
  from demo_after_Some [OF d] obtain g h0 where
    init: "CyberAttackEnv rng0 4 1 (0, heap0) = Inr (e, g, h0)" by blast
  from goal_detection [OF init wf ts' st rng0_in_range]
  have "dn \<longleftrightarrow> reachable ts \<and> \<not> compromised ts \<and>
          (\<forall>m\<in>set (sensitive_machines e). \<exists>v. cur e h' m = Some v \<and> compromised v)"
    by blast
  with ts after f(1) have dn by auto
  with wf rng0_in_range f after show ?thesis
    by (simp add: d st)
qed

section \<open>Returned observations\<close>

text \<open>
  What holds on the path of \<^verbatim>\<open>step\<close> that copies: the reference returned by a step
  that passes the gate is new, the object behind it equals the belief state after the
  step, and a write through it leaves the belief state of the environment alone.
\<close>

lemma step_returns_copy:
  assumes wf: "wf_env e h"
    and ts: "cur e h (target a) = Some ts" "reachable ts" "\<not> compromised ts"
    and st: "step e a h = Inr ((r, rew, dn, i), h')"
  shows "r \<noteq> current_state e \<and> r = next_ref h \<and> objs h' r = cur e h' \<and>
         cur e (mutate r f h') = cur e h'"
proof -
  from st obtain success val srv b where
    ta: "take_action e a = Inr (success, val, srv)" and
    ub: "update_belief a success srv (cur e h) = Inr b"
    unfolding step_pass [OF ts]
    by (auto split: sum.splits prod.splits)
  from step_result [OF ts ta ub wf_env_sens [OF wf]] st
  have r: "r = next_ref h"
    and h': "h' = \<lparr>objs = (objs h)(current_state e := b, next_ref h := b),
                   next_ref = Suc (next_ref h)\<rparr>"
    by simp_all
  from wf have "current_state e < next_ref h" by (simp add: wf_env_def)
  then have ne: "next_ref h \<noteq> current_state e" by simp
  then show ?thesis by (simp add: r h' mutate_def)
qed

text \<open>
  C1. The claim is that every returned belief state is an independent copy. The code
  does not copy on two paths: \<^verbatim>\<open>reset\<close> returns \<^verbatim>\<open>self.current_state\<close>, and so
  does \<^verbatim>\<open>step\<close> when the target is not reachable or already compromised. On both
  the returned reference is the one the environment keeps, and a write \<open>f\<close> through it
  by the caller is a write to the belief state of the environment.
\<close>

theorem returned_state_is_alias:
  assumes ts: "cur e h (target a) = Some ts" and gate: "\<not> reachable ts \<or> compromised ts"
  shows "(case reset e h of
            (r, e1, h1) \<Rightarrow> r = current_state e1 \<and> cur e1 (mutate r f h1) = f (cur e1 h1)) \<and>
         (case step e a h of
            Inl x \<Rightarrow> False
          | Inr ((r, rew, dn, i), h1) \<Rightarrow>
              r = current_state e \<and> h1 = h \<and> cur e (mutate r f h1) = f (cur e h1))"
  by (simp add: reset_eq step_gate [OF ts gate] mutate_def)

text \<open>
  In the example environment: the scan of the unreachable \<open>(1, 0)\<close> returns the
  reference of the environment, in which \<open>(0, 0)\<close> is not compromised; after the next
  step, the exploit of \<open>(0, 0)\<close>, the object behind that same reference has \<open>(0, 0)\<close>
  compromised. The step that passed the gate returned another reference.
\<close>

lemma demo_alias:
  "case demo_after 1 [] of None \<Rightarrow> False
   | Some (e, h, out) \<Rightarrow>
       map_option reachable (cur e h (1, 0)) = Some False \<and>
       map_option compromised (cur e h (0, 0)) = Some False \<and>
       (case step e (exploit (0, 0) 1) h of Inl x \<Rightarrow> False
        | Inr ((r2, rew2, dn2, i2), h2) \<Rightarrow>
            map_option compromised (cur e h2 (0, 0)) = Some True \<and>
            r2 \<noteq> current_state e)"
  by code_simp

theorem returned_state_is_alias_witness:
  "case demo_after 1 [] of None \<Rightarrow> False
   | Some (e, h, out) \<Rightarrow>
       map_option reachable (cur e h (1, 0)) = Some False \<and>
       (case step e (scan (1, 0)) h of Inl x \<Rightarrow> False
        | Inr ((r, rew, dn, i), h1) \<Rightarrow>
            r = current_state e \<and>
            map_option compromised (objs h1 r (0, 0)) = Some False \<and>
            (case step e (exploit (0, 0) 1) h1 of Inl x \<Rightarrow> False
             | Inr ((r2, rew2, dn2, i2), h2) \<Rightarrow>
                 map_option compromised (objs h2 r (0, 0)) = Some True \<and> r2 \<noteq> r))"
proof (cases "demo_after 1 []")
  case None
  with demo_alias show ?thesis by simp
next
  case (Some p)
  obtain e h out where p: "p = (e, h, out)" by (cases p)
  note d = Some [unfolded p]
  from demo_alias have f: "map_option reachable (cur e h (1, 0)) = Some False"
    "map_option compromised (cur e h (0, 0)) = Some False"
    and nxt: "case step e (exploit (0, 0) 1) h of Inl x \<Rightarrow> False
        | Inr ((r2, rew2, dn2, i2), h2) \<Rightarrow>
            map_option compromised (cur e h2 (0, 0)) = Some True \<and>
            r2 \<noteq> current_state e"
    by (simp_all add: d)
  from f obtain ts where ts: "cur e h (target (scan (1, 0))) = Some ts" "\<not> reachable ts"
    by (auto simp: scan_def)
  from ts(2) have gate: "\<not> reachable ts \<or> compromised ts" by simp
  from returned_state_is_alias [OF ts(1) gate, of id]
  obtain r rew dn i h1 where st: "step e (scan (1, 0)) h = Inr ((r, rew, dn, i), h1)"
    and r: "r = current_state e" and h1: "h1 = h"
    by (auto split: sum.splits)
  from f nxt show ?thesis
    by (simp add: d st r h1)
qed

end
